theory Spec2Isabelle
  imports Main "HOL-Library.Word" "HOL-Library.Monad_Syntax"
begin

unbundle bit_operations_syntax

section \<open>Data model\<close>

text \<open>
  The driver \<^verbatim>\<open>SpiFlash\<close> (spiflash.cpp, spiflash.h) talks to a 25LQ080 flash chip
  through the platform's SPI peripheral, a chip-select pin and the delay primitives.
  Those are outside the repository, so the model records every call the driver makes to
  them, in order, as an event of a trace, and takes what the peripheral answers as an
  input: \<open>miso s k\<close> is the byte clocked in during the \<open>k\<close>-th byte clock of the bus.

  \<^verbatim>\<open>size_t\<close> and pointers are 32 bits wide on the Particle devices the driver is written
  for; \<open>+\<close> and \<open>-\<close> on them wrap around.
\<close>

type_synonym u8 = "8 word"
type_synonym size_t = "32 word"
type_synonym ptr = "32 word"

abbreviation NULL :: ptr where
  "NULL \<equiv> 0"

datatype spi_bus = SPI | SPI1
datatype pin_level = LOW | HIGH
datatype bit_order = LSBFIRST | MSBFIRST
datatype clock_unit = HZ | KHZ | MHZ
datatype data_mode = SPI_MODE0 | SPI_MODE1 | SPI_MODE2 | SPI_MODE3

text \<open>
  The last argument of \<^verbatim>\<open>SPI.transfer\<close>: \<^verbatim>\<open>NULL\<close> (the call blocks until the bytes are
  clocked) or \<^verbatim>\<open>SpiFlash::_completion\<close> (the call returns at once and the platform calls
  \<^verbatim>\<open>_completion\<close> when the DMA transfer is over).
\<close>

datatype dma_callback = NoCallback | Completion

text \<open>
  A byte of a transmit buffer is \<open>None\<close> while the code has not written it: the local
  arrays \<^verbatim>\<open>txBuf\<close> are not initialised. The transmit buffer itself is \<open>None\<close> when the
  code passes \<^verbatim>\<open>NULL\<close>; the flag after it says whether a receive buffer was passed.
\<close>

datatype event =
    SpiBegin spi_bus int
  | SetBitOrder spi_bus bit_order
  | SetClockSpeed spi_bus nat clock_unit
  | SetDataMode spi_bus data_mode
  | DigitalWrite int pin_level
  | Transfer spi_bus "u8 option list option" bool nat dma_callback
  | Delay nat
  | DelayMicroseconds nat
  | SerialPrintlnf string "u8 list"
  | UserCallback ptr ptr

text \<open>The fields of class \<^verbatim>\<open>SpiFlash\<close>; \<^verbatim>\<open>bool sharedBus = false\<close> is set by the constructor.\<close>

record SpiFlash =
  spi :: spi_bus
  cs :: int
  sharedBus :: bool

text \<open>
  The machine: the trace of platform calls made so far, the number of bytes clocked on the
  bus, the peripheral's answers, the caller's memory (the buffers \<^verbatim>\<open>buf\<close> point into it),
  the \<^verbatim>\<open>SpiFlash\<close> objects by address, and the three file-level statics
  \<^verbatim>\<open>_spiFlash\<close>, \<^verbatim>\<open>_callback\<close>, \<^verbatim>\<open>_callbackParam\<close>.

  The last field is a history variable, not a variable of the program: \<open>recorded_at\<close> is
  the number of platform calls that had been made when \<^verbatim>\<open>readPageAsync\<close> or
  \<^verbatim>\<open>writePageAsync\<close> last assigned the three statics (the three assignments follow one
  another with no platform call between them). No function of the driver reads it; it
  lets a statement say where in the sequence of platform calls the callback was recorded.
\<close>

record machine =
  trace :: "event list"
  clock :: nat
  miso :: "nat \<Rightarrow> u8"
  mem :: "ptr \<Rightarrow> u8"
  objs :: "ptr \<Rightarrow> SpiFlash"
  g_spiFlash :: ptr
  g_callback :: ptr
  g_callbackParam :: ptr
  recorded_at :: nat

datatype error = NullPointerDereference

definition STATUS_WIP :: u8 where
  "STATUS_WIP = 0x01"

definition STATUS_WEL :: u8 where
  "STATUS_WEL = 0x02"

definition STATUS_SRWD :: u8 where
  "STATUS_SRWD = 0x80"

definition PAGE_SIZE :: size_t where
  "PAGE_SIZE = 256"

definition SECTOR_SIZE :: size_t where
  "SECTOR_SIZE = 4096"

definition NUM_SECTORS :: size_t where
  "NUM_SECTORS = 256"

definition BLOCK_SIZE :: size_t where
  "BLOCK_SIZE = 65536"

definition NUM_BLOCKS :: size_t where
  "NUM_BLOCKS = 16"

section \<open>The platform\<close>

definition emit :: "event \<Rightarrow> machine \<Rightarrow> machine" where
  "emit e s = s\<lparr>trace := trace s @ [e]\<rparr>"

definition digitalWrite :: "int \<Rightarrow> pin_level \<Rightarrow> machine \<Rightarrow> machine" where
  "digitalWrite pin v s = emit (DigitalWrite pin v) s"

definition delay :: "nat \<Rightarrow> machine \<Rightarrow> machine" where
  "delay ms s = emit (Delay ms) s"

definition delayMicroseconds :: "nat \<Rightarrow> machine \<Rightarrow> machine" where
  "delayMicroseconds us s = emit (DelayMicroseconds us) s"

text \<open>
  \<^verbatim>\<open>transfer(tx, rx, len, cb)\<close> clocks \<open>len\<close> bytes; the bytes received are returned (the
  caller of the model stores them where \<^verbatim>\<open>rx\<close> points) and are dropped when \<^verbatim>\<open>rx\<close> is
  \<^verbatim>\<open>NULL\<close>. A transfer with a completion callback is a DMA transfer: the model clocks its
  bytes when it is issued, and the platform's later call of the callback is the separate
  step \<open>SpiFlash_completion\<close>.
\<close>

definition transfer ::
  "spi_bus \<Rightarrow> u8 option list option \<Rightarrow> bool \<Rightarrow> nat \<Rightarrow> dma_callback \<Rightarrow> machine \<Rightarrow> u8 list \<times> machine" where
  "transfer bus tx rx len cb s =
     ((if rx then map (\<lambda>i. miso s (clock s + i)) [0..<len] else []),
      s\<lparr>trace := trace s @ [Transfer bus tx rx len cb], clock := clock s + len\<rparr>)"

text \<open>Reading \<open>n\<close> bytes of the caller's memory at \<open>p\<close>, and storing bytes there.\<close>

definition load_bytes :: "ptr \<Rightarrow> nat \<Rightarrow> (ptr \<Rightarrow> u8) \<Rightarrow> u8 list" where
  "load_bytes p n m = map (\<lambda>i. m (p + of_nat i)) [0..<n]"

fun store_bytes :: "ptr \<Rightarrow> u8 list \<Rightarrow> (ptr \<Rightarrow> u8) \<Rightarrow> (ptr \<Rightarrow> u8)" where
  "store_bytes p [] m = m"
| "store_bytes p (b # bs) m = store_bytes (p + 1) bs (m(p := b))"

section \<open>The driver\<close>

text \<open>\<^verbatim>\<open>SpiFlash::SpiFlash(SPIClass &spi, int cs)\<close>, constructing the object at \<open>this\<close>.\<close>

definition SpiFlash_ctor :: "ptr \<Rightarrow> spi_bus \<Rightarrow> int \<Rightarrow> machine \<Rightarrow> machine" where
  "SpiFlash_ctor this spi0 cs0 s =
     s\<lparr>objs := (objs s)(this := \<lparr>spi = spi0, cs = cs0, sharedBus = False\<rparr>)\<rparr>"

definition setSpiSettings :: "ptr \<Rightarrow> machine \<Rightarrow> machine" where
  "setSpiSettings this s =
     (let b = spi (objs s this);
          s1 = emit (SetBitOrder b MSBFIRST) s;
          s2 = emit (SetClockSpeed b 30 MHZ) s1
      in emit (SetDataMode b SPI_MODE0) s2)"

text \<open>\<^verbatim>\<open>SpiFlash::begin\<close> (\<open>begin\<close> is a keyword here).\<close>

definition SpiFlash_begin :: "ptr \<Rightarrow> machine \<Rightarrow> machine" where
  "SpiFlash_begin this s =
     (let s1 = emit (SpiBegin (spi (objs s this)) (cs (objs s this))) s
      in if \<not> sharedBus (objs s1 this) then setSpiSettings this s1 else s1)"

definition beginTransaction :: "ptr \<Rightarrow> machine \<Rightarrow> machine" where
  "beginTransaction this s =
     (let s1 = (if sharedBus (objs s this) then delay 1 (setSpiSettings this s) else s)
      in digitalWrite (cs (objs s1 this)) LOW s1)"

definition endTransaction :: "ptr \<Rightarrow> machine \<Rightarrow> machine" where
  "endTransaction this s = digitalWrite (cs (objs s this)) HIGH s"

text \<open>
  \<^verbatim>\<open>jedecIdRead\<close> returns the three identification bytes through its reference
  parameters: here as a triple. Only \<^verbatim>\<open>txBuf[0]\<close> is written before the transfer.
\<close>

definition jedecIdRead :: "ptr \<Rightarrow> machine \<Rightarrow> (u8 \<times> u8 \<times> u8) \<times> machine" where
  "jedecIdRead this s =
     (let txBuf = (replicate 4 None)[0 := Some 0x9f];
          s1 = beginTransaction this s;
          (rxBuf, s2) = transfer SPI (Some txBuf) True 4 NoCallback s1;
          s3 = endTransaction this s2
      in ((rxBuf ! 1, rxBuf ! 2, rxBuf ! 3), s3))"

definition isValidChip :: "ptr \<Rightarrow> machine \<Rightarrow> bool \<times> machine" where
  "isValidChip this s =
     (let ((manufacturerId, deviceId1, deviceId2), s1) = jedecIdRead this s;
          s2 = emit (SerialPrintlnf ''manufacturerId=%02x deviceId1=%02x deviceId2=%02x''
                       [manufacturerId, deviceId1, deviceId2]) s1
      in (manufacturerId = 0x9d \<and> deviceId1 = 0x13 \<and> deviceId2 = 0x44, s2))"

definition readStatus :: "ptr \<Rightarrow> machine \<Rightarrow> u8 \<times> machine" where
  "readStatus this s =
     (let txBuf = (replicate 2 None)[0 := Some 0x05];
          s1 = beginTransaction this s;
          (rxBuf, s2) = transfer SPI (Some txBuf) True 2 NoCallback s1;
          s3 = endTransaction this s2
      in (rxBuf ! 1, s3))"

definition isWriteInProgress :: "ptr \<Rightarrow> machine \<Rightarrow> bool \<times> machine" where
  "isWriteInProgress this s =
     (let (status, s1) = readStatus this s in ((status AND STATUS_WIP) \<noteq> 0, s1))"

text \<open>
  The polling loop returns only when the chip reports no write in progress: a run that
  polls forever is the value \<open>None\<close>.
\<close>

partial_function (option) waitForWriteComplete :: "ptr \<Rightarrow> machine \<Rightarrow> machine option" where
  "waitForWriteComplete this s =
     (case isWriteInProgress this s of
        (wip, s1) \<Rightarrow> if wip then waitForWriteComplete this (delay 1 s1) else Some s1)"

definition writeStatus :: "ptr \<Rightarrow> u8 \<Rightarrow> machine \<Rightarrow> machine option" where
  "writeStatus this status s =
     do {
       s1 \<leftarrow> waitForWriteComplete this s;
       let txBuf = (replicate 2 None)[0 := Some 0x01, 1 := Some status];
       let s2 = beginTransaction this s1;
       let (rx, s3) = transfer SPI (Some txBuf) False 2 NoCallback s2;
       Some (endTransaction this s3)
     }"

definition setInstWithAddr :: "u8 \<Rightarrow> size_t \<Rightarrow> u8 option list \<Rightarrow> u8 option list" where
  "setInstWithAddr inst addr buf =
     buf[0 := Some inst,
         1 := Some (ucast (drop_bit 16 addr)),
         2 := Some (ucast (drop_bit 8 addr)),
         3 := Some (ucast addr)]"

definition readPageCommon ::
  "ptr \<Rightarrow> size_t \<Rightarrow> ptr \<Rightarrow> size_t \<Rightarrow> dma_callback \<Rightarrow> machine \<Rightarrow> machine" where
  "readPageCommon this addr buf bufLen completion s =
     (let txBuf = setInstWithAddr 0x03 addr (replicate 4 None);
          s1 = beginTransaction this s;
          (rx0, s2) = transfer SPI (Some txBuf) False 4 NoCallback s1;
          (rx, s3) = transfer SPI None True (unat bufLen) completion s2
      in s3\<lparr>mem := store_bytes buf rx (mem s3)\<rparr>)"

definition readPageSync :: "ptr \<Rightarrow> size_t \<Rightarrow> ptr \<Rightarrow> size_t \<Rightarrow> machine \<Rightarrow> machine" where
  "readPageSync this addr buf bufLen s =
     endTransaction this (readPageCommon this addr buf bufLen NoCallback s)"

definition readPageAsync ::
  "ptr \<Rightarrow> size_t \<Rightarrow> ptr \<Rightarrow> size_t \<Rightarrow> ptr \<Rightarrow> ptr \<Rightarrow> machine \<Rightarrow> machine" where
  "readPageAsync this addr buf bufLen callback param s =
     readPageCommon this addr buf bufLen Completion
       (s\<lparr>g_spiFlash := this, g_callback := callback, g_callbackParam := param,
          recorded_at := length (trace s)\<rparr>)"

text \<open>
  The number of bytes one turn of the loops of \<^verbatim>\<open>readDataSync\<close> and \<^verbatim>\<open>writeDataSync\<close>
  hands to the page operation, as both loop bodies compute it. The subtractions and the
  addition wrap around; the lemmas below show that the result is the distance to the next
  page boundary all the same, capped at \<open>bufLen\<close>, which the loops' termination needs.
\<close>

definition page_count :: "size_t \<Rightarrow> size_t \<Rightarrow> size_t" where
  "page_count addr bufLen =
     (let pageOffset = addr mod PAGE_SIZE;
          pageStart = addr - pageOffset;
          count0 = (pageStart + PAGE_SIZE) - addr
      in if count0 > bufLen then bufLen else count0)"

lemma page_count_word:
  "(addr - addr mod PAGE_SIZE + PAGE_SIZE) - addr = PAGE_SIZE - addr mod PAGE_SIZE"
  by simp

lemma unat_page_offset: "unat (addr mod PAGE_SIZE) = unat addr mod 256"
  by (simp add: PAGE_SIZE_def unat_mod)

lemma unat_page_rest: "unat (PAGE_SIZE - addr mod PAGE_SIZE) = 256 - unat addr mod 256"
proof -
  have le: "addr mod PAGE_SIZE \<le> PAGE_SIZE"
    by (simp add: word_le_nat_alt unat_page_offset) (simp add: PAGE_SIZE_def)
  have "unat (PAGE_SIZE - addr mod PAGE_SIZE) = unat PAGE_SIZE - unat (addr mod PAGE_SIZE)"
    using le by (rule unat_sub)
  then show ?thesis
    by (simp add: unat_page_offset) (simp add: PAGE_SIZE_def)
qed

lemma unat_page_count:
  "unat (page_count addr bufLen) = min (256 - unat addr mod 256) (unat bufLen)"
  unfolding page_count_def Let_def page_count_word
  by (simp add: word_less_nat_alt unat_page_rest min_def)

lemma page_count_decreases:
  assumes pos: "0 < bufLen"
  shows "unat (bufLen - page_count addr bufLen) < unat bufLen"
proof -
  have le: "page_count addr bufLen \<le> bufLen"
    by (simp add: word_le_nat_alt unat_page_count)
  have "0 < unat bufLen"
    using pos by (simp add: word_less_nat_alt)
  moreover from this have "0 < unat (page_count addr bufLen)"
    by (simp add: unat_page_count)
  ultimately show ?thesis
    using le by (simp add: unat_sub word_le_nat_alt)
qed

lemma loop_count_eq:
  assumes "pageOffset = addr mod PAGE_SIZE" "pageStart = addr - pageOffset"
    "count0 = pageStart + PAGE_SIZE - addr"
    "count = (if bufLen < count0 then bufLen else count0)"
  shows "count = page_count addr bufLen"
  using assms by (simp add: page_count_def)

text \<open>
  The loop of \<^verbatim>\<open>readDataSync\<close>: \<open>curBuf\<close> is the cursor into the caller's buffer.
\<close>

function readDataSync :: "ptr \<Rightarrow> size_t \<Rightarrow> ptr \<Rightarrow> size_t \<Rightarrow> machine \<Rightarrow> machine" where
  "readDataSync this addr curBuf bufLen s =
     (if bufLen > 0 then
        (let pageOffset = addr mod PAGE_SIZE;
             pageStart = addr - pageOffset;
             count0 = (pageStart + PAGE_SIZE) - addr;
             count = (if count0 > bufLen then bufLen else count0);
             s1 = readPageSync this addr curBuf count s
         in readDataSync this (addr + count) (curBuf + count) (bufLen - count) s1)
      else s)"
  by pat_completeness auto

termination readDataSync
proof (relation "measure (\<lambda>(this, addr, curBuf, bufLen, s). unat bufLen)")
  show "wf (measure (\<lambda>(this :: ptr, addr :: size_t, curBuf :: ptr, bufLen :: size_t, s :: machine).
    unat bufLen))"
    by simp
next
  fix this :: ptr and addr curBuf bufLen :: size_t and s :: machine
    and pageOffset pageStart count0 count :: size_t and s1 :: machine
  assume "0 < bufLen" "pageOffset = addr mod PAGE_SIZE" "pageStart = addr - pageOffset"
    "count0 = pageStart + PAGE_SIZE - addr"
    "count = (if bufLen < count0 then bufLen else count0)"
  then have "count = page_count addr bufLen" and "0 < bufLen"
    by (simp_all add: loop_count_eq)
  then show "((this, addr + count, curBuf + count, bufLen - count, s1),
      (this, addr, curBuf, bufLen, s)) \<in> measure (\<lambda>(this, addr, curBuf, bufLen, s). unat bufLen)"
    by (simp add: page_count_decreases)
qed

definition writeEnable :: "ptr \<Rightarrow> machine \<Rightarrow> machine" where
  "writeEnable this s =
     (let s1 = beginTransaction this s;
          txBuf = (replicate 1 None)[0 := Some 0x06];
          (rx, s2) = transfer SPI (Some txBuf) False 1 NoCallback s1;
          s3 = endTransaction this s2
      in delayMicroseconds 3 s3)"

definition writePageCommon ::
  "ptr \<Rightarrow> size_t \<Rightarrow> ptr \<Rightarrow> size_t \<Rightarrow> dma_callback \<Rightarrow> machine \<Rightarrow> machine" where
  "writePageCommon this addr buf bufLen completion s =
     (let txBuf = setInstWithAddr 0x02 addr (replicate 4 None);
          s1 = writeEnable this s;
          s2 = beginTransaction this s1;
          (rx0, s3) = transfer SPI (Some txBuf) False 4 NoCallback s2;
          (rx1, s4) = transfer SPI (Some (map Some (load_bytes buf (unat bufLen) (mem s3))))
                        False (unat bufLen) completion s3
      in s4)"

definition writePageSync :: "ptr \<Rightarrow> size_t \<Rightarrow> ptr \<Rightarrow> size_t \<Rightarrow> machine \<Rightarrow> machine option" where
  "writePageSync this addr buf bufLen s =
     do {
       s1 \<leftarrow> waitForWriteComplete this s;
       let s2 = writePageCommon this addr buf bufLen NoCallback s1;
       let s3 = endTransaction this s2;
       waitForWriteComplete this s3
     }"

definition writePageAsync ::
  "ptr \<Rightarrow> size_t \<Rightarrow> ptr \<Rightarrow> size_t \<Rightarrow> ptr \<Rightarrow> ptr \<Rightarrow> machine \<Rightarrow> machine option" where
  "writePageAsync this addr buf bufLen callback param s =
     do {
       s1 \<leftarrow> waitForWriteComplete this s;
       let s2 = s1\<lparr>g_spiFlash := this, g_callback := callback, g_callbackParam := param,
                   recorded_at := length (trace s1)\<rparr>;
       Some (writePageCommon this addr buf bufLen Completion s2)
     }"

text \<open>
  The loop of \<^verbatim>\<open>writeDataSync\<close>. It stops for good where a page write never returns.
\<close>

function writeDataSync :: "ptr \<Rightarrow> size_t \<Rightarrow> ptr \<Rightarrow> size_t \<Rightarrow> machine \<Rightarrow> machine option" where
  "writeDataSync this addr curBuf bufLen s =
     (if bufLen > 0 then
        (let pageOffset = addr mod PAGE_SIZE;
             pageStart = addr - pageOffset;
             count0 = (pageStart + PAGE_SIZE) - addr;
             count = (if count0 > bufLen then bufLen else count0)
         in case writePageSync this addr curBuf count s of
              None \<Rightarrow> None
            | Some s1 \<Rightarrow> writeDataSync this (addr + count) (curBuf + count) (bufLen - count) s1)
      else Some s)"
  by pat_completeness auto

termination writeDataSync
proof (relation "measure (\<lambda>(this, addr, curBuf, bufLen, s). unat bufLen)")
  show "wf (measure (\<lambda>(this :: ptr, addr :: size_t, curBuf :: ptr, bufLen :: size_t, s :: machine).
    unat bufLen))"
    by simp
next
  fix this :: ptr and addr curBuf bufLen :: size_t and s :: machine
    and pageOffset pageStart count0 count :: size_t and s1 :: machine
  assume "writePageSync this addr curBuf count s = Some s1"
  assume "0 < bufLen" "pageOffset = addr mod PAGE_SIZE" "pageStart = addr - pageOffset"
    "count0 = pageStart + PAGE_SIZE - addr"
    "count = (if bufLen < count0 then bufLen else count0)"
  then have "count = page_count addr bufLen" and "0 < bufLen"
    by (simp_all add: loop_count_eq)
  then show "((this, addr + count, curBuf + count, bufLen - count, s1),
      (this, addr, curBuf, bufLen, s)) \<in> measure (\<lambda>(this, addr, curBuf, bufLen, s). unat bufLen)"
    by (simp add: page_count_decreases)
qed

definition sectorErase :: "ptr \<Rightarrow> size_t \<Rightarrow> machine \<Rightarrow> machine option" where
  "sectorErase this addr s =
     do {
       s1 \<leftarrow> waitForWriteComplete this s;
       let txBuf = setInstWithAddr 0xD7 addr (replicate 4 None);
       let s2 = writeEnable this s1;
       let s3 = beginTransaction this s2;
       let (rx, s4) = transfer SPI (Some txBuf) False 4 NoCallback s3;
       let s5 = endTransaction this s4;
       waitForWriteComplete this s5
     }"

definition blockErase :: "ptr \<Rightarrow> size_t \<Rightarrow> machine \<Rightarrow> machine option" where
  "blockErase this addr s =
     do {
       s1 \<leftarrow> waitForWriteComplete this s;
       let txBuf = setInstWithAddr 0xD8 addr (replicate 4 None);
       let s2 = writeEnable this s1;
       let s3 = beginTransaction this s2;
       let (rx, s4) = transfer SPI (Some txBuf) False 4 NoCallback s3;
       let s5 = endTransaction this s4;
       waitForWriteComplete this s5
     }"

definition chipErase :: "ptr \<Rightarrow> machine \<Rightarrow> machine option" where
  "chipErase this s =
     do {
       s1 \<leftarrow> waitForWriteComplete this s;
       let txBuf = (replicate 1 None)[0 := Some 0xC7];
       let s2 = writeEnable this s1;
       let s3 = beginTransaction this s2;
       let (rx, s4) = transfer SPI (Some txBuf) False 1 NoCallback s3;
       let s5 = endTransaction this s4;
       waitForWriteComplete this s5
     }"

text \<open>
  The user's callbacks are code outside the repository. \<open>user cb p s\<close> is what the function
  at address \<open>cb\<close> does when it is called with the argument \<open>p\<close> on the machine \<open>s\<close>: the
  machine it returns on, or \<open>None\<close> when it never returns. It may call the driver again,
  for instance to issue the next asynchronous operation.
\<close>

type_synonym user_code = "ptr \<Rightarrow> ptr \<Rightarrow> machine \<Rightarrow> machine option"

text \<open>
  The static \<^verbatim>\<open>SpiFlash::_completion\<close>, which the platform calls when a DMA transfer is
  over. \<^verbatim>\<open>_spiFlash->endTransaction()\<close> dereferences \<^verbatim>\<open>_spiFlash\<close>: a null pointer there
  is the error. The call \<^verbatim>\<open>_callback(_callbackParam)\<close> leaves an event in the trace and runs
  the user's code, after \<^verbatim>\<open>_spiFlash = NULL\<close> and before \<^verbatim>\<open>_callback = NULL\<close> and
  \<^verbatim>\<open>_callbackParam = NULL\<close>, which are carried out on the machine the callback returns.
\<close>

definition SpiFlash_completion :: "user_code \<Rightarrow> machine \<Rightarrow> (error + machine) option" where
  "SpiFlash_completion user s =
     (if g_spiFlash s = NULL then Some (Inl NullPointerDereference)
      else
        (let s1 = endTransaction (g_spiFlash s) s;
             s2 = s1\<lparr>g_spiFlash := NULL\<rparr>
         in if g_callback s2 \<noteq> NULL then
              (case user (g_callback s2) (g_callbackParam s2)
                      (emit (UserCallback (g_callback s2) (g_callbackParam s2)) s2) of
                 None \<Rightarrow> None
               | Some s3 \<Rightarrow>
                   (let s4 = s3\<lparr>g_callback := NULL\<rparr>
                    in Some (Inr (s4\<lparr>g_callbackParam := NULL\<rparr>))))
            else Some (Inr s2)))"

section \<open>Runs of the public interface\<close>

text \<open>
  One call of the interface of spiflash.h, or the platform's call of \<^verbatim>\<open>_completion\<close> at the
  end of a DMA transfer. A run is a list of calls, each starting where the one before it
  returned; it is \<open>None\<close> when a call never returns and stops at the first error.
  \<open>user\<close> is the code of the callbacks, which the completion handler runs.
\<close>

datatype api_call =
    New ptr spi_bus int
  | Begin ptr
  | IsValidChip ptr
  | JedecIdRead ptr
  | ReadStatus ptr
  | IsWriteInProgress ptr
  | WaitForWriteComplete ptr
  | WriteStatus ptr u8
  | ReadDataSync ptr size_t ptr size_t
  | ReadPageSync ptr size_t ptr size_t
  | ReadPageAsync ptr size_t ptr size_t ptr ptr
  | WriteDataSync ptr size_t ptr size_t
  | WritePageSync ptr size_t ptr size_t
  | WritePageAsync ptr size_t ptr size_t ptr ptr
  | SectorErase ptr size_t
  | BlockErase ptr size_t
  | ChipErase ptr
  | DmaComplete

fun exec :: "user_code \<Rightarrow> api_call \<Rightarrow> machine \<Rightarrow> (error + machine) option" where
  "exec user (New this b c) s = Some (Inr (SpiFlash_ctor this b c s))"
| "exec user (Begin this) s = Some (Inr (SpiFlash_begin this s))"
| "exec user (IsValidChip this) s = Some (Inr (snd (isValidChip this s)))"
| "exec user (JedecIdRead this) s = Some (Inr (snd (jedecIdRead this s)))"
| "exec user (ReadStatus this) s = Some (Inr (snd (readStatus this s)))"
| "exec user (IsWriteInProgress this) s = Some (Inr (snd (isWriteInProgress this s)))"
| "exec user (WaitForWriteComplete this) s = map_option Inr (waitForWriteComplete this s)"
| "exec user (WriteStatus this v) s = map_option Inr (writeStatus this v s)"
| "exec user (ReadDataSync this addr buf n) s = Some (Inr (readDataSync this addr buf n s))"
| "exec user (ReadPageSync this addr buf n) s = Some (Inr (readPageSync this addr buf n s))"
| "exec user (ReadPageAsync this addr buf n cb p) s = Some (Inr (readPageAsync this addr buf n cb p s))"
| "exec user (WriteDataSync this addr buf n) s = map_option Inr (writeDataSync this addr buf n s)"
| "exec user (WritePageSync this addr buf n) s = map_option Inr (writePageSync this addr buf n s)"
| "exec user (WritePageAsync this addr buf n cb p) s =
     map_option Inr (writePageAsync this addr buf n cb p s)"
| "exec user (SectorErase this addr) s = map_option Inr (sectorErase this addr s)"
| "exec user (BlockErase this addr) s = map_option Inr (blockErase this addr s)"
| "exec user (ChipErase this) s = map_option Inr (chipErase this s)"
| "exec user DmaComplete s = SpiFlash_completion user s"

fun run :: "user_code \<Rightarrow> api_call list \<Rightarrow> machine \<Rightarrow> (error + machine) option" where
  "run user [] s = Some (Inr s)"
| "run user (c # calls) s =
     (case exec user c s of
        None \<Rightarrow> None
      | Some (Inl e) \<Rightarrow> Some (Inl e)
      | Some (Inr s1) \<Rightarrow> run user calls s1)"

section \<open>Vocabulary of the statements\<close>

text \<open>
  The sub-operations of a multi-page transfer: the loop of \<^verbatim>\<open>readDataSync\<close> and
  \<^verbatim>\<open>writeDataSync\<close> with the page operation left out, listing the arguments
  \<open>(addr, curBuf, count)\<close> it is called with, turn by turn.
\<close>

function pageChunks :: "size_t \<Rightarrow> ptr \<Rightarrow> size_t \<Rightarrow> (size_t \<times> ptr \<times> size_t) list" where
  "pageChunks addr curBuf bufLen =
     (if bufLen > 0 then
        (let pageOffset = addr mod PAGE_SIZE;
             pageStart = addr - pageOffset;
             count0 = (pageStart + PAGE_SIZE) - addr;
             count = (if count0 > bufLen then bufLen else count0)
         in (addr, curBuf, count) # pageChunks (addr + count) (curBuf + count) (bufLen - count))
      else [])"
  by pat_completeness auto

termination pageChunks
proof (relation "measure (\<lambda>(addr, curBuf, bufLen). unat bufLen)")
  show "wf (measure (\<lambda>(addr :: size_t, curBuf :: ptr, bufLen :: size_t). unat bufLen))"
    by simp
next
  fix addr curBuf bufLen pageOffset pageStart count0 count :: size_t
  assume "0 < bufLen" "pageOffset = addr mod PAGE_SIZE" "pageStart = addr - pageOffset"
    "count0 = pageStart + PAGE_SIZE - addr"
    "count = (if bufLen < count0 then bufLen else count0)"
  then have "count = page_count addr bufLen" and "0 < bufLen"
    by (simp_all add: loop_count_eq)
  then show "((addr + count, curBuf + count, bufLen - count), (addr, curBuf, bufLen))
      \<in> measure (\<lambda>(addr, curBuf, bufLen). unat bufLen)"
    by (simp add: page_count_decreases)
qed

text \<open>Running a page operation over a list of sub-operations, in order.\<close>

fun read_chunks :: "ptr \<Rightarrow> (size_t \<times> ptr \<times> size_t) list \<Rightarrow> machine \<Rightarrow> machine" where
  "read_chunks this [] s = s"
| "read_chunks this ((a, b, c) # rest) s = read_chunks this rest (readPageSync this a b c s)"

fun write_chunks :: "ptr \<Rightarrow> (size_t \<times> ptr \<times> size_t) list \<Rightarrow> machine \<Rightarrow> machine option" where
  "write_chunks this [] s = Some s"
| "write_chunks this ((a, b, c) # rest) s =
     (case writePageSync this a b c s of None \<Rightarrow> None | Some s1 \<Rightarrow> write_chunks this rest s1)"

text \<open>The flash addresses and the buffer addresses a sub-operation touches, in order.\<close>

definition span :: "32 word \<Rightarrow> size_t \<Rightarrow> 32 word list" where
  "span a n = map (\<lambda>i. a + of_nat i) [0..<unat n]"

text \<open>
  What the calls of the driver leave in the trace. \<open>select_events\<close> is one
  \<^verbatim>\<open>beginTransaction\<close>, \<open>status_poll\<close> one \<^verbatim>\<open>readStatus\<close>, \<open>write_enable_events\<close> one
  \<^verbatim>\<open>writeEnable\<close>, and \<open>wait_events k\<close> one \<^verbatim>\<open>waitForWriteComplete\<close> that found the chip busy
  \<open>k\<close> times: \<open>k\<close> polls each followed by \<^verbatim>\<open>delay(1)\<close>, and the poll that ended the wait.
\<close>

definition settings_events :: "SpiFlash \<Rightarrow> event list" where
  "settings_events d =
     [SetBitOrder (spi d) MSBFIRST, SetClockSpeed (spi d) 30 MHZ, SetDataMode (spi d) SPI_MODE0]"

definition select_events :: "SpiFlash \<Rightarrow> event list" where
  "select_events d =
     (if sharedBus d then settings_events d @ [Delay 1] else []) @ [DigitalWrite (cs d) LOW]"

definition status_poll :: "SpiFlash \<Rightarrow> event list" where
  "status_poll d =
     select_events d @
     [Transfer SPI (Some [Some 0x05, None]) True 2 NoCallback, DigitalWrite (cs d) HIGH]"

definition write_enable_events :: "SpiFlash \<Rightarrow> event list" where
  "write_enable_events d =
     select_events d @
     [Transfer SPI (Some [Some 0x06]) False 1 NoCallback, DigitalWrite (cs d) HIGH,
      DelayMicroseconds 3]"

fun wait_events :: "nat \<Rightarrow> SpiFlash \<Rightarrow> event list" where
  "wait_events 0 d = status_poll d"
| "wait_events (Suc k) d = status_poll d @ [Delay 1] @ wait_events k d"

text \<open>The four bytes of an instruction with its address, as \<^verbatim>\<open>setInstWithAddr\<close> frames them.\<close>

definition header :: "u8 \<Rightarrow> size_t \<Rightarrow> u8 option list" where
  "header inst addr = setInstWithAddr inst addr (replicate 4 None)"

text \<open>
  \<open>wip_bit st\<close>: the status byte \<open>st\<close> has its write-in-progress bit set.
  \<open>busy_polls m c k\<close>: of the status reads that start at byte clock \<open>c\<close>, one after the
  other, the first \<open>k\<close> are answered with the bit set and the next one with the bit clear
  (the status byte is the second byte of each two-byte read).
\<close>

definition wip_bit :: "u8 \<Rightarrow> bool" where
  "wip_bit st = ((st AND STATUS_WIP) \<noteq> 0)"

fun busy_polls :: "(nat \<Rightarrow> u8) \<Rightarrow> nat \<Rightarrow> nat \<Rightarrow> bool" where
  "busy_polls m c 0 = (\<not> wip_bit (m (c + 1)))"
| "busy_polls m c (Suc k) = (wip_bit (m (c + 1)) \<and> busy_polls m (c + 2) k)"

definition is_setting :: "event \<Rightarrow> bool" where
  "is_setting e =
     (case e of SetBitOrder b v \<Rightarrow> True | SetClockSpeed b n u \<Rightarrow> True | SetDataMode b v \<Rightarrow> True
      | _ \<Rightarrow> False)"

fun is_begin :: "api_call \<Rightarrow> bool" where
  "is_begin (Begin this) = True"
| "is_begin c = False"

text \<open>
  \<open>quiet s s'\<close>: from \<open>s\<close> to \<open>s'\<close> no device object has changed and the trace has grown
  by events none of which sets the bit order, the clock speed or the data mode.
\<close>

definition quiet :: "machine \<Rightarrow> machine \<Rightarrow> bool" where
  "quiet s s' =
     (objs s' = objs s \<and> (\<exists>evs. trace s' = trace s @ evs \<and> filter is_setting evs = []))"

text \<open>
  A machine for concrete runs: nothing has happened yet, the peripheral answers \<open>m\<close>, and
  every device object is as its constructor leaves it, on bus \<^verbatim>\<open>SPI\<close> with chip select
  on pin 5.
\<close>

definition fresh_machine :: "(nat \<Rightarrow> u8) \<Rightarrow> machine" where
  "fresh_machine m =
     \<lparr>trace = [], clock = 0, miso = m, mem = (\<lambda>p. 0),
      objs = (\<lambda>p. \<lparr>spi = SPI, cs = 5, sharedBus = False\<rparr>),
      g_spiFlash = NULL, g_callback = NULL, g_callbackParam = NULL, recorded_at = 0\<rparr>"

section \<open>What each call leaves in the machine\<close>

lemma replicate_1: "replicate 1 x = [x]"
  by simp

lemma replicate_2: "replicate 2 x = [x, x]"
  by (simp add: numeral_2_eq_2)

lemma replicate_4: "replicate 4 x = [x, x, x, x]"
  by (simp add: numeral_eq_Suc)

lemma emit_eq: "emit e s = s\<lparr>trace := trace s @ [e]\<rparr>"
  by (simp add: emit_def)

lemma setSpiSettings_eq:
  "setSpiSettings this s = s\<lparr>trace := trace s @ settings_events (objs s this)\<rparr>"
  by (simp add: setSpiSettings_def emit_def settings_events_def Let_def)

lemma beginTransaction_eq:
  "beginTransaction this s = s\<lparr>trace := trace s @ select_events (objs s this)\<rparr>"
  by (simp add: beginTransaction_def setSpiSettings_eq delay_def digitalWrite_def emit_def
      select_events_def Let_def)

lemma endTransaction_eq:
  "endTransaction this s = s\<lparr>trace := trace s @ [DigitalWrite (cs (objs s this)) HIGH]\<rparr>"
  by (simp add: endTransaction_def digitalWrite_def emit_def)

lemma readStatus_eq:
  "readStatus this s =
     (miso s (clock s + 1),
      s\<lparr>trace := trace s @ status_poll (objs s this), clock := clock s + 2\<rparr>)"
  by (simp add: readStatus_def beginTransaction_eq endTransaction_eq transfer_def status_poll_def
      Let_def replicate_2)

lemma isWriteInProgress_eq:
  "isWriteInProgress this s =
     (wip_bit (miso s (clock s + 1)),
      s\<lparr>trace := trace s @ status_poll (objs s this), clock := clock s + 2\<rparr>)"
  by (simp add: isWriteInProgress_def readStatus_eq wip_bit_def)

lemma writeEnable_eq:
  "writeEnable this s =
     s\<lparr>trace := trace s @ write_enable_events (objs s this), clock := clock s + 1\<rparr>"
  by (simp add: writeEnable_def beginTransaction_eq endTransaction_eq transfer_def
      delayMicroseconds_def emit_def write_enable_events_def Let_def)

lemma wait_busy:
  "busy_polls (miso s) (clock s) k \<Longrightarrow>
   waitForWriteComplete this s =
     Some (s\<lparr>trace := trace s @ wait_events k (objs s this), clock := clock s + 2 * Suc k\<rparr>)"
proof (induction k arbitrary: s)
  case 0
  then show ?case
    by (subst waitForWriteComplete.simps) (simp add: isWriteInProgress_eq)
next
  case (Suc k)
  let ?s1 = "delay 1 (s\<lparr>trace := trace s @ status_poll (objs s this), clock := clock s + 2\<rparr>)"
  from Suc.prems have busy: "wip_bit (miso s (clock s + 1))"
    and rest: "busy_polls (miso ?s1) (clock ?s1) k"
    by (simp_all add: delay_def emit_def)
  have "waitForWriteComplete this s = waitForWriteComplete this ?s1"
    using busy by (subst waitForWriteComplete.simps) (simp add: isWriteInProgress_eq)
  also have "\<dots> = Some (?s1\<lparr>trace := trace ?s1 @ wait_events k (objs ?s1 this),
      clock := clock ?s1 + 2 * Suc k\<rparr>)"
    by (rule Suc.IH [OF rest])
  finally show ?case
    by (simp add: delay_def emit_def)
qed

lemma wait_returns:
  assumes ret: "waitForWriteComplete this s = Some s'"
  shows "\<exists>k. busy_polls (miso s) (clock s) k \<and>
       s' = s\<lparr>trace := trace s @ wait_events k (objs s this), clock := clock s + 2 * Suc k\<rparr>"
proof (rule waitForWriteComplete.raw_induct [where P = "\<lambda>this s s'.
    \<exists>k. busy_polls (miso s) (clock s) k \<and>
       s' = s\<lparr>trace := trace s @ wait_events k (objs s this), clock := clock s + 2 * Suc k\<rparr>",
    OF _ ret])
  fix wait :: "ptr \<Rightarrow> machine \<Rightarrow> machine option" and this s s'
  assume IH: "\<And>t u y. wait t u = Some y \<Longrightarrow>
      \<exists>k. busy_polls (miso u) (clock u) k \<and>
       y = u\<lparr>trace := trace u @ wait_events k (objs u t), clock := clock u + 2 * Suc k\<rparr>"
    and step: "(case isWriteInProgress this s of
        (w, s1) \<Rightarrow> if w then wait this (delay 1 s1) else Some s1) = Some s'"
  show "\<exists>k. busy_polls (miso s) (clock s) k \<and>
       s' = s\<lparr>trace := trace s @ wait_events k (objs s this), clock := clock s + 2 * Suc k\<rparr>"
  proof (cases "wip_bit (miso s (clock s + 1))")
    case False
    with step have "s' = s\<lparr>trace := trace s @ wait_events 0 (objs s this),
        clock := clock s + 2 * Suc 0\<rparr>"
      by (simp add: isWriteInProgress_eq)
    moreover from False have "busy_polls (miso s) (clock s) 0" by simp
    ultimately show ?thesis by blast
  next
    case True
    let ?s1 = "delay 1 (s\<lparr>trace := trace s @ status_poll (objs s this), clock := clock s + 2\<rparr>)"
    from True step have "wait this ?s1 = Some s'"
      by (simp add: isWriteInProgress_eq)
    from IH [OF this] obtain k where k: "busy_polls (miso ?s1) (clock ?s1) k"
      and s': "s' = ?s1\<lparr>trace := trace ?s1 @ wait_events k (objs ?s1 this),
        clock := clock ?s1 + 2 * Suc k\<rparr>"
      by blast
    from True k have "busy_polls (miso s) (clock s) (Suc k)"
      by (simp add: delay_def emit_def)
    moreover from s' have "s' = s\<lparr>trace := trace s @ wait_events (Suc k) (objs s this),
        clock := clock s + 2 * Suc (Suc k)\<rparr>"
      by (simp add: delay_def emit_def)
    ultimately show ?thesis by blast
  qed
qed

lemma jedecIdRead_eq:
  "jedecIdRead this s =
     ((miso s (clock s + 1), miso s (clock s + 2), miso s (clock s + 3)),
      s\<lparr>trace := trace s @ select_events (objs s this) @
           [Transfer SPI (Some [Some 0x9f, None, None, None]) True 4 NoCallback,
            DigitalWrite (cs (objs s this)) HIGH],
        clock := clock s + 4\<rparr>)"
  by (simp add: jedecIdRead_def beginTransaction_eq endTransaction_eq transfer_def Let_def
      replicate_4 upt_rec numeral_eq_Suc)

lemma setInstWithAddr_4:
  "length buf = 4 \<Longrightarrow>
   setInstWithAddr inst addr buf =
     [Some inst, Some (ucast (drop_bit 16 addr)), Some (ucast (drop_bit 8 addr)), Some (ucast addr)]"
  by (cases buf rule: list.exhaust; simp add: setInstWithAddr_def)
     (auto simp: length_Suc_conv numeral_eq_Suc)

lemma header_eq:
  "header inst addr =
     [Some inst, Some (ucast (drop_bit 16 addr)), Some (ucast (drop_bit 8 addr)), Some (ucast addr)]"
  by (simp add: header_def setInstWithAddr_4)

lemma writePageCommon_eq:
  "writePageCommon this addr buf n cb s =
     s\<lparr>trace := trace s @ write_enable_events (objs s this) @ select_events (objs s this) @
          [Transfer SPI (Some (header 0x02 addr)) False 4 NoCallback,
           Transfer SPI (Some (map Some (load_bytes buf (unat n) (mem s)))) False (unat n) cb],
       clock := clock s + 5 + unat n\<rparr>"
  by (simp add: writePageCommon_def writeEnable_eq beginTransaction_eq transfer_def Let_def
      header_def)

lemma readPageCommon_eq:
  "readPageCommon this addr buf n cb s =
     s\<lparr>trace := trace s @ select_events (objs s this) @
          [Transfer SPI (Some (header 0x03 addr)) False 4 NoCallback,
           Transfer SPI None True (unat n) cb],
       clock := clock s + 4 + unat n,
       mem := store_bytes buf (map (\<lambda>i. miso s (clock s + 4 + i)) [0..<unat n]) (mem s)\<rparr>"
  by (simp add: readPageCommon_def beginTransaction_eq transfer_def Let_def header_def
      add.assoc)

lemma readPageSync_eq:
  "readPageSync this addr buf n s =
     s\<lparr>trace := trace s @ select_events (objs s this) @
          [Transfer SPI (Some (header 0x03 addr)) False 4 NoCallback,
           Transfer SPI None True (unat n) NoCallback,
           DigitalWrite (cs (objs s this)) HIGH],
       clock := clock s + 4 + unat n,
       mem := store_bytes buf (map (\<lambda>i. miso s (clock s + 4 + i)) [0..<unat n]) (mem s)\<rparr>"
  by (simp add: readPageSync_def readPageCommon_eq endTransaction_eq)

lemma bind_wait_iff:
  "(waitForWriteComplete this s \<bind> f = Some s') \<longleftrightarrow>
   (\<exists>k. busy_polls (miso s) (clock s) k \<and>
        f (s\<lparr>trace := trace s @ wait_events k (objs s this), clock := clock s + 2 * Suc k\<rparr>) = Some s')"
proof
  assume "waitForWriteComplete this s \<bind> f = Some s'"
  then obtain s1 where s1: "waitForWriteComplete this s = Some s1" and f: "f s1 = Some s'"
    by (cases "waitForWriteComplete this s") simp_all
  from wait_returns [OF s1] f show "\<exists>k. busy_polls (miso s) (clock s) k \<and>
        f (s\<lparr>trace := trace s @ wait_events k (objs s this), clock := clock s + 2 * Suc k\<rparr>) = Some s'"
    by blast
next
  assume "\<exists>k. busy_polls (miso s) (clock s) k \<and>
        f (s\<lparr>trace := trace s @ wait_events k (objs s this), clock := clock s + 2 * Suc k\<rparr>) = Some s'"
  then obtain k where "busy_polls (miso s) (clock s) k"
    and "f (s\<lparr>trace := trace s @ wait_events k (objs s this), clock := clock s + 2 * Suc k\<rparr>) = Some s'"
    by blast
  then show "waitForWriteComplete this s \<bind> f = Some s'"
    by (simp add: wait_busy)
qed

lemma wait_iff:
  "(waitForWriteComplete this s = Some s') \<longleftrightarrow>
   (\<exists>k. busy_polls (miso s) (clock s) k \<and>
        s' = s\<lparr>trace := trace s @ wait_events k (objs s this), clock := clock s + 2 * Suc k\<rparr>)"
proof -
  have "(Some x = Some s') = (s' = x)" for x :: machine
    by auto
  with bind_wait_iff [of this s Some s'] show ?thesis
    by simp
qed

lemma wip_bit_0: "\<not> wip_bit 0" and wip_bit_1: "wip_bit 1"
  by (simp_all add: wip_bit_def STATUS_WIP_def)

lemma fresh_machine_simps:
  "trace (fresh_machine m) = []" "clock (fresh_machine m) = 0" "miso (fresh_machine m) = m"
  "mem (fresh_machine m) = (\<lambda>p. 0)"
  "objs (fresh_machine m) this = \<lparr>spi = SPI, cs = 5, sharedBus = False\<rparr>"
  "g_spiFlash (fresh_machine m) = NULL" "g_callback (fresh_machine m) = NULL"
  "g_callbackParam (fresh_machine m) = NULL" "recorded_at (fresh_machine m) = 0"
  by (simp_all add: fresh_machine_def)

lemma load_bytes_2: "load_bytes p 2 m = [m p, m (p + 1)]"
  by (simp add: load_bytes_def upt_rec numeral_eq_Suc)

lemma readPageAsync_eq:
  "readPageAsync this addr buf n cb p s =
     s\<lparr>trace := trace s @ select_events (objs s this) @
          [Transfer SPI (Some (header 0x03 addr)) False 4 NoCallback,
           Transfer SPI None True (unat n) Completion],
       clock := clock s + 4 + unat n,
       mem := store_bytes buf (map (\<lambda>i. miso s (clock s + 4 + i)) [0..<unat n]) (mem s),
       g_spiFlash := this, g_callback := cb, g_callbackParam := p,
       recorded_at := length (trace s)\<rparr>"
  by (simp add: readPageAsync_def readPageCommon_eq)

lemma writePageAsync_iff:
  "writePageAsync this addr buf n cb p s = Some s' \<longleftrightarrow>
   (\<exists>k. busy_polls (miso s) (clock s) k \<and>
      s' = s\<lparr>trace := trace s @
                 wait_events k (objs s this) @
                 write_enable_events (objs s this) @
                 select_events (objs s this) @
                 [Transfer SPI (Some (header 0x02 addr)) False 4 NoCallback,
                  Transfer SPI (Some (map Some (load_bytes buf (unat n) (mem s))))
                    False (unat n) Completion],
              clock := clock s + 2 * Suc k + 5 + unat n,
              g_spiFlash := this, g_callback := cb, g_callbackParam := p,
              recorded_at := length (trace s @ wait_events k (objs s this))\<rparr>)"
proof -
  have flip: "(Some x = Some s') = (s' = x)" for x :: machine
    by auto
  show ?thesis
    unfolding writePageAsync_def Let_def bind_wait_iff
    by (auto simp add: writePageCommon_eq add.assoc)
qed

lemma busy_polls_never:
  assumes "\<And>i. wip_bit (m i)"
  shows "\<not> busy_polls m c k"
  using assms by (induction k arbitrary: c) simp_all

section \<open>Command framing\<close>

lemma unat_byte2: "unat (ucast (drop_bit 16 (addr :: size_t)) :: u8) = unat addr div 2 ^ 16 mod 256"
  by (simp add: unsigned_ucast_eq drop_bit_eq_div take_bit_eq_mod unat_div)

lemma unat_byte1: "unat (ucast (drop_bit 8 (addr :: size_t)) :: u8) = unat addr div 2 ^ 8 mod 256"
  by (simp add: unsigned_ucast_eq drop_bit_eq_div take_bit_eq_mod unat_div)

lemma unat_byte0: "unat (ucast (addr :: size_t) :: u8) = unat addr mod 256"
  by (simp add: unsigned_ucast_eq take_bit_eq_mod)

lemma bytes_mod_24:
  fixes a b :: nat
  assumes "a mod 2 ^ 24 = b mod 2 ^ 24"
  shows "a div 2 ^ 16 mod 256 = b div 2 ^ 16 mod 256"
    and "a div 2 ^ 8 mod 256 = b div 2 ^ 8 mod 256"
    and "a mod 256 = b mod 256"
proof -
  have "a div 2 ^ 16 mod 256 = a mod 2 ^ 24 div 2 ^ 16" for a :: nat
    using div_exp_mod_exp_eq [of a 16 8] by simp
  with assms show "a div 2 ^ 16 mod 256 = b div 2 ^ 16 mod 256" by simp
  have "a div 2 ^ 8 mod 2 ^ 16 = a mod 2 ^ 24 div 2 ^ 8" for a :: nat
    using div_exp_mod_exp_eq [of a 8 16] by simp
  with assms have "a div 2 ^ 8 mod 2 ^ 16 mod 256 = b div 2 ^ 8 mod 2 ^ 16 mod 256"
    by simp
  then show "a div 2 ^ 8 mod 256 = b div 2 ^ 8 mod 256"
    by (simp add: mod_mod_cancel)
  have "a mod 256 = a mod 2 ^ 24 mod 256" for a :: nat
    by (simp add: mod_mod_cancel)
  with assms show "a mod 256 = b mod 256" by metis
qed

text \<open>
  Claim C2. For every opcode and every address, \<^verbatim>\<open>setInstWithAddr\<close> fills a four-byte
  buffer with the opcode followed by the low 24 bits of the address, most significant
  byte first: the bytes are \<open>(A >> 16) mod 256\<close>, \<open>(A >> 8) mod 256\<close> and \<open>A mod 256\<close>.
  For the address \<open>0x123456\<close> they are \<open>0x12, 0x34, 0x56\<close>, and two addresses that are equal
  modulo \<open>2 ^ 24\<close> give the same header.
\<close>

theorem setInstWithAddr_header:
  assumes len: "length buf = 4"
  shows "map (map_option unat) (setInstWithAddr inst addr buf) =
           [Some (unat inst), Some (unat addr div 2 ^ 16 mod 256),
            Some (unat addr div 2 ^ 8 mod 256), Some (unat addr mod 256)]
       \<and> setInstWithAddr inst 0x123456 buf = [Some inst, Some 0x12, Some 0x34, Some 0x56]
       \<and> (unat addr mod 2 ^ 24 = unat addr' mod 2 ^ 24 \<longrightarrow>
            setInstWithAddr inst addr buf = setInstWithAddr inst addr' buf)"
proof (intro conjI impI)
  show "map (map_option unat) (setInstWithAddr inst addr buf) =
           [Some (unat inst), Some (unat addr div 2 ^ 16 mod 256),
            Some (unat addr div 2 ^ 8 mod 256), Some (unat addr mod 256)]"
    using unat_byte2 [of addr] unat_byte1 [of addr] unat_byte0 [of addr]
    by (simp add: setInstWithAddr_4 [OF len])
  show "setInstWithAddr inst 0x123456 buf = [Some inst, Some 0x12, Some 0x34, Some 0x56]"
    by (simp add: setInstWithAddr_4 [OF len] drop_bit_eq_div)
  assume eq: "unat addr mod 2 ^ 24 = unat addr' mod 2 ^ 24"
  have "(ucast (drop_bit 16 addr) :: u8) = ucast (drop_bit 16 addr')"
    using bytes_mod_24(1) [OF eq] by (simp add: word_unat_eq_iff unat_byte2)
  moreover have "(ucast (drop_bit 8 addr) :: u8) = ucast (drop_bit 8 addr')"
    using bytes_mod_24(2) [OF eq] by (simp add: word_unat_eq_iff unat_byte1)
  moreover have "(ucast addr :: u8) = ucast addr'"
    using bytes_mod_24(3) [OF eq] by (simp add: word_unat_eq_iff unat_byte0)
  ultimately show "setInstWithAddr inst addr buf = setInstWithAddr inst addr' buf"
    by (simp add: setInstWithAddr_4 [OF len])
qed

text \<open>
  The theorem at the transmit buffer of the callers (four bytes, none written yet) and an
  address beyond 24 bits: its header is that of the address \<open>0x123456\<close>.
\<close>

theorem setInstWithAddr_header_witness:
  "map (map_option unat) (setInstWithAddr 0x03 0x01123456 (replicate 4 None)) =
     [Some 0x03, Some 0x12, Some 0x34, Some 0x56]
   \<and> setInstWithAddr 0x03 0x01123456 (replicate 4 None) =
       setInstWithAddr 0x03 0x123456 (replicate 4 None)"
  using setInstWithAddr_header [where buf = "replicate 4 None" and inst = "0x03"
      and addr = "0x01123456" and addr' = "0x123456"]
  by simp

section \<open>Identification\<close>

text \<open>
  Claim C7. \<^verbatim>\<open>jedecIdRead\<close> takes the identification bytes from positions 1, 2 and 3 of
  the four bytes received (the byte received at position 0, while the opcode is clocked
  out, is not used), and \<^verbatim>\<open>isValidChip\<close> returns true exactly when they are
  \<open>0x9D, 0x13, 0x44\<close>: as soon as one of the three differs it returns false. The function
  is total and its result is a plain truth value: no error or exception can come out of it.
\<close>

theorem isValidChip_iff:
  "fst (jedecIdRead this s) = (miso s (clock s + 1), miso s (clock s + 2), miso s (clock s + 3))
   \<and> fst (isValidChip this s) =
       (miso s (clock s + 1) = 0x9d \<and> miso s (clock s + 2) = 0x13 \<and> miso s (clock s + 3) = 0x44)"
  by (simp add: isValidChip_def jedecIdRead_eq Let_def)

text \<open>
  The theorem on three chips: one that answers \<open>0x9D, 0x13, 0x44\<close> after the leading
  byte, one whose last byte differs, and one that sends the three bytes one position
  early.
\<close>

theorem isValidChip_iff_witness:
  "fst (isValidChip 1
      (fresh_machine (\<lambda>k. if k = 1 then 0x9d else if k = 2 then 0x13 else if k = 3 then 0x44 else 0)))
   \<and> \<not> fst (isValidChip 1
      (fresh_machine (\<lambda>k. if k = 1 then 0x9d else if k = 2 then 0x13 else if k = 3 then 0x45 else 0)))
   \<and> \<not> fst (isValidChip 1 (fresh_machine (\<lambda>k. if k = 0 then 0x9d else if k = 1 then 0x13
      else if k = 2 then 0x44 else 0)))"
  using isValidChip_iff [of 1 "fresh_machine (\<lambda>k. if k = 1 then 0x9d else if k = 2 then 0x13
        else if k = 3 then 0x44 else 0)"]
    isValidChip_iff [of 1 "fresh_machine (\<lambda>k. if k = 1 then 0x9d else if k = 2 then 0x13
        else if k = 3 then 0x45 else 0)"]
    isValidChip_iff [of 1 "fresh_machine (\<lambda>k. if k = 0 then 0x9d else if k = 1 then 0x13
        else if k = 2 then 0x44 else 0)"]
  by (simp add: fresh_machine_simps)

section \<open>Waiting for the chip\<close>

text \<open>
  Claim C8. When the chip reports no write in progress (bit 0 of the status byte clear),
  \<^verbatim>\<open>waitForWriteComplete\<close> returns after a single status read: the machine it returns is
  the one \<^verbatim>\<open>readStatus\<close> leaves, so nothing but the trace and the byte clock has changed,
  and on a bus that is not shared the trace has grown by the three events of the read
  (chip select low, the two-byte transfer of opcode \<open>0x05\<close>, chip select high) with no
  delay among them. Issued again while the chip still reports no write in progress, it
  does the same once more: two calls are two status reads and nothing else.
\<close>

theorem waitForWriteComplete_idle:
  assumes idle: "\<not> wip_bit (miso s (clock s + 1))"
  shows "waitForWriteComplete this s = Some (snd (readStatus this s))
       \<and> snd (readStatus this s) =
           s\<lparr>trace := trace s @ status_poll (objs s this), clock := clock s + 2\<rparr>
       \<and> (\<not> sharedBus (objs s this) \<longrightarrow>
            status_poll (objs s this) =
              [DigitalWrite (cs (objs s this)) LOW,
               Transfer SPI (Some [Some 0x05, None]) True 2 NoCallback,
               DigitalWrite (cs (objs s this)) HIGH])
       \<and> (\<not> wip_bit (miso s (clock s + 3)) \<longrightarrow>
            waitForWriteComplete this s \<bind> waitForWriteComplete this =
              Some (s\<lparr>trace := trace s @ status_poll (objs s this) @ status_poll (objs s this),
                      clock := clock s + 4\<rparr>))"
proof (intro conjI impI)
  from idle have b0: "busy_polls (miso s) (clock s) 0"
    by simp
  show first: "waitForWriteComplete this s = Some (snd (readStatus this s))"
    using wait_busy [OF b0, of this] by (simp add: readStatus_eq)
  show "snd (readStatus this s) =
      s\<lparr>trace := trace s @ status_poll (objs s this), clock := clock s + 2\<rparr>"
    by (simp add: readStatus_eq)
  show "status_poll (objs s this) =
      [DigitalWrite (cs (objs s this)) LOW,
       Transfer SPI (Some [Some 0x05, None]) True 2 NoCallback,
       DigitalWrite (cs (objs s this)) HIGH]"
    if "\<not> sharedBus (objs s this)"
    using that by (simp add: status_poll_def select_events_def)
  show "waitForWriteComplete this s \<bind> waitForWriteComplete this =
      Some (s\<lparr>trace := trace s @ status_poll (objs s this) @ status_poll (objs s this),
              clock := clock s + 4\<rparr>)"
    if again: "\<not> wip_bit (miso s (clock s + 3))"
  proof -
    let ?s1 = "s\<lparr>trace := trace s @ status_poll (objs s this), clock := clock s + 2\<rparr>"
    from again have "busy_polls (miso ?s1) (clock ?s1) 0"
      by (simp add: numeral_3_eq_3)
    from wait_busy [OF this, of this] first show ?thesis
      by (simp add: readStatus_eq)
  qed
qed

text \<open>The theorem on a chip that answers every status read with zero.\<close>

theorem waitForWriteComplete_idle_witness:
  "map_option trace (waitForWriteComplete 1 (fresh_machine (\<lambda>k. 0))) =
     Some [DigitalWrite 5 LOW, Transfer SPI (Some [Some 0x05, None]) True 2 NoCallback,
           DigitalWrite 5 HIGH]
   \<and> map_option trace
       (waitForWriteComplete 1 (fresh_machine (\<lambda>k. 0)) \<bind> waitForWriteComplete 1) =
     Some [DigitalWrite 5 LOW, Transfer SPI (Some [Some 0x05, None]) True 2 NoCallback,
           DigitalWrite 5 HIGH,
           DigitalWrite 5 LOW, Transfer SPI (Some [Some 0x05, None]) True 2 NoCallback,
           DigitalWrite 5 HIGH]"
proof -
  let ?s = "fresh_machine (\<lambda>k. 0)"
  have idle: "\<not> wip_bit (miso ?s (clock ?s + 1))" and again: "\<not> wip_bit (miso ?s (clock ?s + 3))"
    by (simp_all add: fresh_machine_simps wip_bit_0)
  note w = waitForWriteComplete_idle [OF idle, of 1]
  from w have once: "waitForWriteComplete 1 ?s = Some (snd (readStatus 1 ?s))"
    by blast
  from w have st: "snd (readStatus 1 ?s) =
      ?s\<lparr>trace := trace ?s @ status_poll (objs ?s 1), clock := clock ?s + 2\<rparr>"
    by blast
  from w again have twice: "waitForWriteComplete 1 ?s \<bind> waitForWriteComplete 1 =
      Some (?s\<lparr>trace := trace ?s @ status_poll (objs ?s 1) @ status_poll (objs ?s 1),
              clock := clock ?s + 4\<rparr>)"
    by blast
  show ?thesis
    unfolding twice unfolding once st
    by (simp add: fresh_machine_simps status_poll_def select_events_def)
qed

section \<open>Single-page write\<close>

text \<open>
  Claim C3. \<^verbatim>\<open>writePageSync\<close> returns exactly when both of its waits end, and what it has
  done by then is, in this order: the status polls of the first wait (each busy answer
  followed by \<^verbatim>\<open>delay(1)\<close>), the write-enable command, chip select active, the four-byte
  header (opcode \<open>0x02\<close> and the address), the \<open>bufLen\<close> payload bytes read from the
  caller's buffer, chip select inactive, and the status polls of the second wait, the last
  of which found the write-in-progress bit clear: the write is over when the call returns.
\<close>

theorem writePageSync_sequence:
  "writePageSync this addr buf n s = Some s' \<longleftrightarrow>
   (\<exists>k1 k2.
      busy_polls (miso s) (clock s) k1 \<and>
      busy_polls (miso s) (clock s + 2 * Suc k1 + 5 + unat n) k2 \<and>
      s' = s\<lparr>trace := trace s @
                 wait_events k1 (objs s this) @
                 write_enable_events (objs s this) @
                 select_events (objs s this) @
                 [Transfer SPI (Some [Some 0x02, Some (ucast (drop_bit 16 addr)),
                                      Some (ucast (drop_bit 8 addr)), Some (ucast addr)])
                    False 4 NoCallback,
                  Transfer SPI (Some (map Some (load_bytes buf (unat n) (mem s))))
                    False (unat n) NoCallback,
                  DigitalWrite (cs (objs s this)) HIGH] @
                 wait_events k2 (objs s this),
              clock := clock s + 2 * Suc k1 + 5 + unat n + 2 * Suc k2\<rparr>)"
  unfolding writePageSync_def Let_def bind_wait_iff wait_iff
  by (simp add: writePageCommon_eq endTransaction_eq header_eq add.assoc)

text \<open>
  The theorem on a chip that is idle before the write and busy at the first poll after
  it: a two-byte write at address \<open>0x10\<close>.
\<close>

theorem writePageSync_sequence_witness:
  "map_option trace
     (writePageSync 1 0x10 0x2000 2 (fresh_machine (\<lambda>k. if k = 10 then 1 else 0))) =
   Some [DigitalWrite 5 LOW, Transfer SPI (Some [Some 0x05, None]) True 2 NoCallback,
         DigitalWrite 5 HIGH,
         DigitalWrite 5 LOW, Transfer SPI (Some [Some 0x06]) False 1 NoCallback,
         DigitalWrite 5 HIGH, DelayMicroseconds 3,
         DigitalWrite 5 LOW,
         Transfer SPI (Some [Some 0x02, Some 0, Some 0, Some 0x10]) False 4 NoCallback,
         Transfer SPI (Some [Some 0, Some 0]) False 2 NoCallback,
         DigitalWrite 5 HIGH,
         DigitalWrite 5 LOW, Transfer SPI (Some [Some 0x05, None]) True 2 NoCallback,
         DigitalWrite 5 HIGH, Delay 1,
         DigitalWrite 5 LOW, Transfer SPI (Some [Some 0x05, None]) True 2 NoCallback,
         DigitalWrite 5 HIGH]"
proof -
  let ?m = "\<lambda>k::nat. if k = 10 then 1 else (0::u8)"
  let ?s = "fresh_machine ?m"
  define s' where "s' = ?s\<lparr>trace := trace ?s @
                 wait_events 0 (objs ?s 1) @
                 write_enable_events (objs ?s 1) @
                 select_events (objs ?s 1) @
                 [Transfer SPI (Some [Some 0x02, Some (ucast (drop_bit 16 (0x10 :: size_t))),
                                      Some (ucast (drop_bit 8 (0x10 :: size_t))),
                                      Some (ucast (0x10 :: size_t))])
                    False 4 NoCallback,
                  Transfer SPI (Some (map Some (load_bytes 0x2000 (unat (2 :: size_t)) (mem ?s))))
                    False (unat (2 :: size_t)) NoCallback,
                  DigitalWrite (cs (objs ?s 1)) HIGH] @
                 wait_events (Suc 0) (objs ?s 1),
              clock := clock ?s + 2 * Suc 0 + 5 + unat (2 :: size_t) + 2 * Suc (Suc 0)\<rparr>"
  have "writePageSync 1 0x10 0x2000 2 ?s = Some s'"
    unfolding writePageSync_sequence
    by (rule exI [of _ 0], rule exI [of _ "Suc 0"])
       (simp add: s'_def fresh_machine_simps wip_bit_0 wip_bit_1)
  then show ?thesis
    by (simp add: s'_def fresh_machine_simps status_poll_def write_enable_events_def
        select_events_def load_bytes_2 drop_bit_eq_div)
qed

section \<open>Asynchronous page operations\<close>

text \<open>
  Claim C10. \<^verbatim>\<open>readPageAsync\<close> always returns, and when it does it has recorded the
  device, the callback and its parameter and issued the read command (chip select
  active, header \<open>0x03\<close> with the address, the DMA transfer): there is no status read
  before it. \<^verbatim>\<open>writePageAsync\<close> returns exactly when its wait ends; before it records the
  callback and issues the page program it has polled the status register until the chip
  reported no write in progress, with \<^verbatim>\<open>delay(1)\<close> after each busy answer. On a chip that
  never stops reporting a write in progress it does not return.

  The history variable \<open>recorded_at\<close> says where the callback was recorded:
  \<^verbatim>\<open>readPageAsync\<close> records it before its first platform call, \<^verbatim>\<open>writePageAsync\<close> when
  the trace holds the polls of its wait and nothing of the write-enable or the page
  program yet. A \<^verbatim>\<open>writePageAsync\<close> that recorded the callback first and polled afterwards
  would leave \<open>length (trace s)\<close> there.
\<close>

theorem async_issue_waits:
  "readPageAsync this addr buf n cb p s =
     s\<lparr>trace := trace s @ select_events (objs s this) @
          [Transfer SPI (Some (header 0x03 addr)) False 4 NoCallback,
           Transfer SPI None True (unat n) Completion],
       clock := clock s + 4 + unat n,
       mem := store_bytes buf (map (\<lambda>i. miso s (clock s + 4 + i)) [0..<unat n]) (mem s),
       g_spiFlash := this, g_callback := cb, g_callbackParam := p,
       recorded_at := length (trace s)\<rparr>
   \<and> (writePageAsync this addr buf n cb p s = Some s' \<longleftrightarrow>
       (\<exists>k. busy_polls (miso s) (clock s) k \<and>
          s' = s\<lparr>trace := trace s @
                     wait_events k (objs s this) @
                     write_enable_events (objs s this) @
                     select_events (objs s this) @
                     [Transfer SPI (Some (header 0x02 addr)) False 4 NoCallback,
                      Transfer SPI (Some (map Some (load_bytes buf (unat n) (mem s))))
                        False (unat n) Completion],
                  clock := clock s + 2 * Suc k + 5 + unat n,
                  g_spiFlash := this, g_callback := cb, g_callbackParam := p,
                  recorded_at := length (trace s @ wait_events k (objs s this))\<rparr>))"
  using readPageAsync_eq writePageAsync_iff by blast

text \<open>
  The theorem on a chip that always reports a write in progress, where the read is issued
  and the write blocks for good, and on one that reports it at the first poll only.
\<close>

theorem async_issue_waits_witness:
  "trace (readPageAsync 1 0x10 0x2000 2 0x100 0x200 (fresh_machine (\<lambda>k. 1))) =
     [DigitalWrite 5 LOW,
      Transfer SPI (Some [Some 0x03, Some 0, Some 0, Some 0x10]) False 4 NoCallback,
      Transfer SPI None True 2 Completion]
   \<and> writePageAsync 1 0x10 0x2000 2 0x100 0x200 (fresh_machine (\<lambda>k. 1)) = None
   \<and> recorded_at (readPageAsync 1 0x10 0x2000 2 0x100 0x200 (fresh_machine (\<lambda>k. 1))) = 0
   \<and> map_option (\<lambda>s. (trace s, g_spiFlash s, g_callback s, g_callbackParam s, recorded_at s))
       (writePageAsync 1 0x10 0x2000 2 0x100 0x200 (fresh_machine (\<lambda>k. if k = 1 then 1 else 0))) =
     Some ([DigitalWrite 5 LOW, Transfer SPI (Some [Some 0x05, None]) True 2 NoCallback,
            DigitalWrite 5 HIGH, Delay 1,
            DigitalWrite 5 LOW, Transfer SPI (Some [Some 0x05, None]) True 2 NoCallback,
            DigitalWrite 5 HIGH,
            DigitalWrite 5 LOW, Transfer SPI (Some [Some 0x06]) False 1 NoCallback,
            DigitalWrite 5 HIGH, DelayMicroseconds 3,
            DigitalWrite 5 LOW,
            Transfer SPI (Some [Some 0x02, Some 0, Some 0, Some 0x10]) False 4 NoCallback,
            Transfer SPI (Some [Some 0, Some 0]) False 2 Completion],
           1, 0x100, 0x200, 7)"
proof (intro conjI)
  let ?busy = "fresh_machine (\<lambda>k. 1)"
  let ?s = "fresh_machine (\<lambda>k. if k = 1 then 1 else 0)"
  note busy = async_issue_waits [of 1 "0x10" "0x2000" 2 "0x100" "0x200" ?busy]
  show "trace (readPageAsync 1 0x10 0x2000 2 0x100 0x200 ?busy) =
     [DigitalWrite 5 LOW,
      Transfer SPI (Some [Some 0x03, Some 0, Some 0, Some 0x10]) False 4 NoCallback,
      Transfer SPI None True 2 Completion]"
    by (simp add: busy [THEN conjunct1] fresh_machine_simps select_events_def header_eq
        drop_bit_eq_div)
  show "recorded_at (readPageAsync 1 0x10 0x2000 2 0x100 0x200 ?busy) = 0"
    by (simp add: busy [THEN conjunct1] fresh_machine_simps)
  show "writePageAsync 1 0x10 0x2000 2 0x100 0x200 ?busy = None"
  proof (cases "writePageAsync 1 0x10 0x2000 2 0x100 0x200 ?busy")
    case (Some s')
    with busy [THEN conjunct2, of s'] obtain k where "busy_polls (miso ?busy) (clock ?busy) k"
      by blast
    then show ?thesis
      by (simp add: fresh_machine_simps busy_polls_never wip_bit_1)
  qed simp
  define s' where "s' = ?s\<lparr>trace := trace ?s @
                     wait_events (Suc 0) (objs ?s 1) @
                     write_enable_events (objs ?s 1) @
                     select_events (objs ?s 1) @
                     [Transfer SPI (Some (header 0x02 0x10)) False 4 NoCallback,
                      Transfer SPI (Some (map Some (load_bytes 0x2000 (unat (2 :: size_t)) (mem ?s))))
                        False (unat (2 :: size_t)) Completion],
                  clock := clock ?s + 2 * Suc (Suc 0) + 5 + unat (2 :: size_t),
                  g_spiFlash := 1, g_callback := 0x100, g_callbackParam := 0x200,
                  recorded_at := length (trace ?s @ wait_events (Suc 0) (objs ?s 1))\<rparr>"
  have "busy_polls (miso ?s) (clock ?s) (Suc 0)"
    by (simp add: fresh_machine_simps wip_bit_0 wip_bit_1)
  then have "writePageAsync 1 0x10 0x2000 2 0x100 0x200 ?s = Some s'"
    unfolding async_issue_waits [of 1 "0x10" "0x2000" 2 "0x100" "0x200" ?s, THEN conjunct2] s'_def
    by blast
  then show "map_option (\<lambda>s. (trace s, g_spiFlash s, g_callback s, g_callbackParam s, recorded_at s))
       (writePageAsync 1 0x10 0x2000 2 0x100 0x200 ?s) =
     Some ([DigitalWrite 5 LOW, Transfer SPI (Some [Some 0x05, None]) True 2 NoCallback,
            DigitalWrite 5 HIGH, Delay 1,
            DigitalWrite 5 LOW, Transfer SPI (Some [Some 0x05, None]) True 2 NoCallback,
            DigitalWrite 5 HIGH,
            DigitalWrite 5 LOW, Transfer SPI (Some [Some 0x06]) False 1 NoCallback,
            DigitalWrite 5 HIGH, DelayMicroseconds 3,
            DigitalWrite 5 LOW,
            Transfer SPI (Some [Some 0x02, Some 0, Some 0, Some 0x10]) False 4 NoCallback,
            Transfer SPI (Some [Some 0, Some 0]) False 2 Completion],
           1, 0x100, 0x200, 7)"
    by (simp add: s'_def fresh_machine_simps status_poll_def write_enable_events_def
        select_events_def load_bytes_2 header_eq drop_bit_eq_div)
qed

text \<open>
  Claim C4, as stated, fails: a second asynchronous operation issued while one is pending
  is neither rejected nor queued. Below, a read is issued with callback \<open>0x100\<close> and
  parameter \<open>0x200\<close>; it is pending (\<^verbatim>\<open>_spiFlash\<close> is set and \<^verbatim>\<open>_completion\<close> has not run)
  when a second read is issued with callback \<open>0x300\<close> and parameter \<open>0x400\<close>. The second
  call sends its command like the first and the record of the first callback is gone.
\<close>

theorem second_async_issue_counterexample:
  "g_spiFlash (readPageAsync 1 0x10 0x2000 2 0x100 0x200 (fresh_machine (\<lambda>k. 0))) \<noteq> NULL
   \<and> g_callback (readPageAsync 1 0x10 0x2000 2 0x100 0x200 (fresh_machine (\<lambda>k. 0))) = 0x100
   \<and> g_callbackParam (readPageAsync 1 0x10 0x2000 2 0x100 0x200 (fresh_machine (\<lambda>k. 0))) = 0x200
   \<and> g_callback (readPageAsync 1 0x40 0x3000 2 0x300 0x400
         (readPageAsync 1 0x10 0x2000 2 0x100 0x200 (fresh_machine (\<lambda>k. 0)))) = 0x300
   \<and> g_callbackParam (readPageAsync 1 0x40 0x3000 2 0x300 0x400
         (readPageAsync 1 0x10 0x2000 2 0x100 0x200 (fresh_machine (\<lambda>k. 0)))) = 0x400
   \<and> trace (readPageAsync 1 0x40 0x3000 2 0x300 0x400
         (readPageAsync 1 0x10 0x2000 2 0x100 0x200 (fresh_machine (\<lambda>k. 0)))) =
       [DigitalWrite 5 LOW,
        Transfer SPI (Some [Some 0x03, Some 0, Some 0, Some 0x10]) False 4 NoCallback,
        Transfer SPI None True 2 Completion,
        DigitalWrite 5 LOW,
        Transfer SPI (Some [Some 0x03, Some 0, Some 0, Some 0x40]) False 4 NoCallback,
        Transfer SPI None True 2 Completion]"
  by (simp add: readPageAsync_eq fresh_machine_simps select_events_def header_eq drop_bit_eq_div)

text \<open>
  Claim C4, amended. \<^verbatim>\<open>readPageAsync\<close> and \<^verbatim>\<open>writePageAsync\<close> do not look at the pending
  record: whatever it holds, also the device, callback and parameter of an operation
  whose completion has not fired, after the call it holds the device, the callback and
  the parameter of this call, and the call has issued its command as usual. Keeping
  asynchronous operations apart is left to the caller.
\<close>

theorem second_async_issue_overwrites:
  "g_spiFlash (readPageAsync this addr buf n cb p s) = this
   \<and> g_callback (readPageAsync this addr buf n cb p s) = cb
   \<and> g_callbackParam (readPageAsync this addr buf n cb p s) = p
   \<and> trace (readPageAsync this addr buf n cb p s) =
       trace s @ select_events (objs s this) @
       [Transfer SPI (Some (header 0x03 addr)) False 4 NoCallback,
        Transfer SPI None True (unat n) Completion]
   \<and> (writePageAsync this addr buf n cb p s = Some s' \<longrightarrow>
       g_spiFlash s' = this \<and> g_callback s' = cb \<and> g_callbackParam s' = p \<and>
       (\<exists>k. trace s' =
          trace s @ wait_events k (objs s this) @ write_enable_events (objs s this) @
          select_events (objs s this) @
          [Transfer SPI (Some (header 0x02 addr)) False 4 NoCallback,
           Transfer SPI (Some (map Some (load_bytes buf (unat n) (mem s)))) False (unat n)
             Completion]))"
proof (intro conjI impI)
  assume "writePageAsync this addr buf n cb p s = Some s'"
  then obtain k where s': "s' = s\<lparr>trace := trace s @
                 wait_events k (objs s this) @
                 write_enable_events (objs s this) @
                 select_events (objs s this) @
                 [Transfer SPI (Some (header 0x02 addr)) False 4 NoCallback,
                  Transfer SPI (Some (map Some (load_bytes buf (unat n) (mem s))))
                    False (unat n) Completion],
              clock := clock s + 2 * Suc k + 5 + unat n,
              g_spiFlash := this, g_callback := cb, g_callbackParam := p,
              recorded_at := length (trace s @ wait_events k (objs s this))\<rparr>"
    unfolding writePageAsync_iff by blast
  show "g_spiFlash s' = this" "g_callback s' = cb" "g_callbackParam s' = p"
    by (simp_all add: s')
  show "\<exists>k. trace s' =
          trace s @ wait_events k (objs s this) @ write_enable_events (objs s this) @
          select_events (objs s this) @
          [Transfer SPI (Some (header 0x02 addr)) False 4 NoCallback,
           Transfer SPI (Some (map Some (load_bytes buf (unat n) (mem s)))) False (unat n)
             Completion]"
    by (rule exI [of _ k]) (simp add: s')
qed (simp_all add: readPageAsync_eq)

text \<open>The theorem for a read and for a write issued while a read is pending.\<close>

theorem second_async_issue_overwrites_witness:
  "g_callback (readPageAsync 1 0x40 0x3000 2 0x300 0x400
      (readPageAsync 1 0x10 0x2000 2 0x100 0x200 (fresh_machine (\<lambda>k. 0)))) = 0x300
   \<and> map_option g_callback (writePageAsync 1 0x40 0x3000 2 0x300 0x400
      (readPageAsync 1 0x10 0x2000 2 0x100 0x200 (fresh_machine (\<lambda>k. 0)))) = Some 0x300"
proof -
  let ?s1 = "readPageAsync 1 0x10 0x2000 2 0x100 0x200 (fresh_machine (\<lambda>k. 0))"
  have idle: "busy_polls (miso ?s1) (clock ?s1) 0"
    by (simp add: readPageAsync_eq fresh_machine_simps wip_bit_0)
  then obtain s2 where s2: "writePageAsync 1 0x40 0x3000 2 0x300 0x400 ?s1 = Some s2"
    unfolding writePageAsync_iff by blast
  note ow = second_async_issue_overwrites [of 1 "0x40" "0x3000" 2 "0x300" "0x400" ?s1 s2]
  from ow s2 have "g_callback s2 = 0x300"
    by blast
  with s2 ow show ?thesis
    by simp
qed

lemma completion_no_callback:
  assumes "g_spiFlash s \<noteq> NULL" "g_callback s = NULL"
  shows "SpiFlash_completion user s =
     Some (Inr (s\<lparr>trace := trace s @ [DigitalWrite (cs (objs s (g_spiFlash s))) HIGH],
                  g_spiFlash := NULL\<rparr>))"
  using assms by (simp add: SpiFlash_completion_def endTransaction_eq Let_def)

lemma completion_callback:
  assumes "g_spiFlash s \<noteq> NULL" "g_callback s \<noteq> NULL"
  shows "SpiFlash_completion user s =
     map_option (\<lambda>s3. Inr (s3\<lparr>g_callback := NULL, g_callbackParam := NULL\<rparr>))
       (user (g_callback s) (g_callbackParam s)
          (s\<lparr>trace := trace s @
                 [DigitalWrite (cs (objs s (g_spiFlash s))) HIGH,
                  UserCallback (g_callback s) (g_callbackParam s)],
               g_spiFlash := NULL\<rparr>))"
proof -
  have order: "s\<lparr>g_spiFlash := NULL, trace := evs\<rparr> = s\<lparr>trace := evs, g_spiFlash := NULL\<rparr>"
    for evs
    by simp
  from assms show ?thesis
    by (simp add: SpiFlash_completion_def endTransaction_eq emit_def Let_def order
        split: option.split)
qed




section \<open>Write enable\<close>

text \<open>
  Claim C5 asks for a write-enable command before every status write. \<^verbatim>\<open>writeStatus\<close>
  does not issue one: on an idle chip, \<^verbatim>\<open>writeStatus(0x02)\<close> reads the status once and
  then sends opcode \<open>0x01\<close> with the payload byte; no transfer of opcode \<open>0x06\<close> and no
  delay of 3 microseconds is in its trace. (The page program and the three erase
  functions call \<^verbatim>\<open>writeEnable\<close> right before their command, see \<open>writePageCommon_eq\<close>.)
\<close>

theorem writeStatus_without_write_enable:
  "map_option trace (writeStatus 1 0x02 (fresh_machine (\<lambda>k. 0))) =
     Some [DigitalWrite 5 LOW, Transfer SPI (Some [Some 0x05, None]) True 2 NoCallback,
           DigitalWrite 5 HIGH,
           DigitalWrite 5 LOW, Transfer SPI (Some [Some 0x01, Some 0x02]) False 2 NoCallback,
           DigitalWrite 5 HIGH]"
proof -
  let ?s = "fresh_machine (\<lambda>k. 0)"
  have "busy_polls (miso ?s) (clock ?s) 0"
    by (simp add: fresh_machine_simps wip_bit_0)
  from wait_busy [OF this, of 1] show ?thesis
    by (simp add: writeStatus_def beginTransaction_eq endTransaction_eq transfer_def
        fresh_machine_simps status_poll_def select_events_def replicate_2)
qed

section \<open>Multi-page transfers\<close>

text \<open>
  The equations of the three loops unfold for ever as rewrite rules; they are used one
  step at a time.
\<close>

declare readDataSync.simps [simp del] writeDataSync.simps [simp del] pageChunks.simps [simp del]

lemma pageChunks_0: "pageChunks addr buf 0 = []"
  by (subst pageChunks.simps) simp

lemma pageChunks_step:
  "0 < n \<Longrightarrow>
   pageChunks addr buf n =
     (addr, buf, page_count addr n) #
     pageChunks (addr + page_count addr n) (buf + page_count addr n) (n - page_count addr n)"
  by (subst pageChunks.simps, unfold page_count_def Let_def, simp only: if_True)

lemma readDataSync_0: "readDataSync this addr buf 0 s = s"
  by (subst readDataSync.simps) simp

lemma readDataSync_step:
  "0 < n \<Longrightarrow>
   readDataSync this addr buf n s =
     readDataSync this (addr + page_count addr n) (buf + page_count addr n)
       (n - page_count addr n) (readPageSync this addr buf (page_count addr n) s)"
  by (subst readDataSync.simps, unfold page_count_def Let_def, simp only: if_True)

lemma writeDataSync_0: "writeDataSync this addr buf 0 s = Some s"
  by (subst writeDataSync.simps) simp

lemma writeDataSync_step:
  "0 < n \<Longrightarrow>
   writeDataSync this addr buf n s =
     (case writePageSync this addr buf (page_count addr n) s of
        None \<Rightarrow> None
      | Some s1 \<Rightarrow>
          writeDataSync this (addr + page_count addr n) (buf + page_count addr n)
            (n - page_count addr n) s1)"
  by (subst writeDataSync.simps, unfold page_count_def Let_def, simp only: if_True)

lemma page_count_le: "unat (page_count addr n) \<le> unat n"
  by (simp add: unat_page_count)

lemma unat_rest: "unat (n - page_count addr n) = unat n - unat (page_count addr n)"
  by (simp add: unat_sub word_le_nat_alt page_count_le)

lemma readDataSync_chunks:
  "readDataSync this addr buf n s = read_chunks this (pageChunks addr buf n) s"
proof (induction "unat n" arbitrary: addr buf n s rule: less_induct)
  case less
  show ?case
  proof (cases "n = 0")
    case True
    then show ?thesis by (simp add: readDataSync_0 pageChunks_0)
  next
    case False
    then have pos: "0 < n" by (simp add: word_greater_zero_iff)
    from less [OF page_count_decreases [OF pos]] show ?thesis
      by (simp add: readDataSync_step [OF pos] pageChunks_step [OF pos])
  qed
qed

lemma writeDataSync_chunks:
  "writeDataSync this addr buf n s = write_chunks this (pageChunks addr buf n) s"
proof (induction "unat n" arbitrary: addr buf n s rule: less_induct)
  case less
  show ?case
  proof (cases "n = 0")
    case True
    then show ?thesis by (simp add: writeDataSync_0 pageChunks_0)
  next
    case False
    then have pos: "0 < n" by (simp add: word_greater_zero_iff)
    from less [OF page_count_decreases [OF pos]] show ?thesis
      by (simp add: writeDataSync_step [OF pos] pageChunks_step [OF pos] split: option.split)
  qed
qed

lemma pageChunks_bounds:
  "(a, b, c) \<in> set (pageChunks addr buf n) \<Longrightarrow>
   0 < unat c \<and> unat c \<le> 256 \<and> unat a mod 256 + unat c \<le> 256"
proof (induction "unat n" arbitrary: addr buf n rule: less_induct)
  case less
  show ?case
  proof (cases "n = 0")
    case True
    with less.prems show ?thesis by (simp add: pageChunks_0)
  next
    case False
    then have pos: "0 < n" by (simp add: word_greater_zero_iff)
    then have posn: "0 < unat n" by (simp add: word_less_nat_alt)
    from less.prems consider "(a, b, c) = (addr, buf, page_count addr n)"
      | "(a, b, c) \<in> set (pageChunks (addr + page_count addr n) (buf + page_count addr n)
            (n - page_count addr n))"
      by (auto simp: pageChunks_step [OF pos])
    then show ?thesis
    proof cases
      case 1
      with posn show ?thesis by (auto simp: unat_page_count)
    next
      case 2
      from less.hyps [OF page_count_decreases [OF pos] 2] show ?thesis .
    qed
  qed
qed

lemma span_0: "span a 0 = []"
  by (simp add: span_def)

lemma upt_split:
  "[0..<c + m] = [0..<c] @ map (\<lambda>i. i + c) [0..<m]"
proof -
  have "[0..<c + m] = [0..<c] @ [c..<c + m]"
    using upt_add_eq_append [of 0 c m] by simp
  also have "[c..<c + m] = map (\<lambda>i. i + c) [0..<m]"
    using map_add_upt [of c m] by (simp only: add.commute [of m c])
  finally show ?thesis .
qed

lemma span_append:
  assumes "unat c \<le> unat n"
  shows "span a c @ span (a + c) (n - c) = span a n"
proof -
  have "unat n = unat c + unat (n - c)"
    using assms by (simp add: unat_sub word_le_nat_alt)
  then have "span a n = map (\<lambda>i. a + of_nat i) [0..<unat c + unat (n - c)]"
    by (simp only: span_def)
  also have "\<dots> = span a c @ span (a + c) (n - c)"
    by (simp only: upt_split map_append map_map o_def span_def of_nat_add of_nat_unat
        ucast_id add.assoc add.commute [of "of_nat _" c])
  finally show ?thesis by simp
qed

lemma pageChunks_cover:
  "concat (map (\<lambda>(a, b, c). span a c) (pageChunks addr buf n)) = span addr n
   \<and> concat (map (\<lambda>(a, b, c). span b c) (pageChunks addr buf n)) = span buf n"
proof (induction "unat n" arbitrary: addr buf n rule: less_induct)
  case less
  show ?case
  proof (cases "n = 0")
    case True
    then show ?thesis by (simp add: pageChunks_0 span_0)
  next
    case False
    then have pos: "0 < n" by (simp add: word_greater_zero_iff)
    from less [OF page_count_decreases [OF pos]] show ?thesis
      by (simp add: pageChunks_step [OF pos] span_append page_count_le)
  qed
qed

lemma next_boundary_aux:
  fixes d m :: nat
  assumes "m < 256"
  shows "(256 * d + m + (256 - m)) mod 256 = 0"
proof -
  have "256 * d + m + (256 - m) = 256 * (d + 1)"
    using assms by simp
  then show ?thesis
    by (simp only: mod_mult_self1_is_0)
qed

lemma next_boundary_nat:
  fixes A :: nat
  shows "(A + (256 - A mod 256)) mod 256 = 0"
  using next_boundary_aux [of "A mod 256" "A div 256"] by simp

lemma unat_next_page:
  assumes "unat (page_count addr n) < unat n"
  shows "unat (addr + page_count addr n) mod 256 = 0"
proof -
  from assms have c: "unat (page_count addr n) = 256 - unat addr mod 256"
    by (simp add: unat_page_count min_def split: if_splits)
  have "unat (addr + page_count addr n) = (unat addr + unat (page_count addr n)) mod 2 ^ 32"
    by (simp add: unat_word_ariths)
  then have "unat (addr + page_count addr n) mod 256 = (unat addr + (256 - unat addr mod 256)) mod 256"
    by (simp add: c mod_mod_cancel)
  then show ?thesis
    by (simp only: next_boundary_nat)
qed

lemma pageChunks_length:
  "length (pageChunks addr buf n) =
     (if n = 0 then 0 else (unat addr mod 256 + unat n - 1) div 256 + 1)"
proof (induction "unat n" arbitrary: addr buf n rule: less_induct)
  case less
  show ?case
  proof (cases "n = 0")
    case True
    then show ?thesis by (simp add: pageChunks_0)
  next
    case False
    then have pos: "0 < n" by (simp add: word_greater_zero_iff)
    then have posn: "0 < unat n" by (simp add: word_less_nat_alt)
    let ?c = "page_count addr n"
    note IH = less [OF page_count_decreases [OF pos], of "addr + ?c" "buf + ?c"]
    show ?thesis
    proof (cases "unat ?c < unat n")
      case True
      then have rest: "n - ?c \<noteq> 0"
        by (simp add: unat_rest unat_eq_0 [symmetric] del: unat_eq_0)
      from True have c: "unat ?c = 256 - unat addr mod 256"
        by (simp add: unat_page_count min_def split: if_splits)
      have "length (pageChunks addr buf n) = Suc ((unat n - unat ?c - 1) div 256 + 1)"
        using IH rest by (simp add: pageChunks_step [OF pos] unat_next_page [OF True] unat_rest)
      also have "unat n - unat ?c - 1 = unat addr mod 256 + unat n - 1 - 256"
        using True c by arith
      also have "Suc ((unat addr mod 256 + unat n - 1 - 256) div 256 + 1) =
          (unat addr mod 256 + unat n - 1) div 256 + 1"
        using True c by (simp add: le_div_geq)
      finally show ?thesis using False by simp
    next
      case last: False
      with page_count_le [of addr n] have eq: "unat ?c = unat n" by arith
      then have "n - ?c = 0"
        by (simp add: unat_rest unat_eq_0 [symmetric] del: unat_eq_0)
      moreover from eq posn have "unat addr mod 256 + unat n - 1 < 256"
        by (simp add: unat_page_count min_def split: if_splits)
      ultimately show ?thesis
        using False by (simp add: pageChunks_step [OF pos] pageChunks_0)
    qed
  qed
qed

lemma div_page_aux:
  fixes q r m :: nat
  shows "(256 * q + r + m) div 256 = q + (r + m) div 256"
  by (simp add: add.assoc)

lemma pages_between:
  fixes A n :: nat
  assumes "0 < n"
  shows "(A mod 256 + n - 1) div 256 = (A + n - 1) div 256 - A div 256"
proof -
  from assms obtain m where n: "n = Suc m"
    by (cases n) simp_all
  have "(A + m) div 256 = (256 * (A div 256) + A mod 256 + m) div 256"
    by simp
  also have "\<dots> = A div 256 + (A mod 256 + m) div 256"
    by (rule div_page_aux)
  finally show ?thesis
    by (simp add: n)
qed

lemma page_image:
  fixes A :: nat
  shows "(\<lambda>i. (A + i) div 256) ` {..<Suc m} = {A div 256..(A + m) div 256}"
proof (induction m)
  case 0
  then show ?case by (simp add: lessThan_Suc)
next
  case (Suc m)
  have step: "(A + Suc m) div 256 = (A + m) div 256 \<or> (A + Suc m) div 256 = Suc ((A + m) div 256)"
    by (simp add: div_Suc)
  have lo: "A div 256 \<le> (A + m) div 256"
    by (simp add: div_le_mono)
  have "(\<lambda>i. (A + i) div 256) ` {..<Suc (Suc m)} =
      insert ((A + Suc m) div 256) ((\<lambda>i. (A + i) div 256) ` {..<Suc m})"
    by (simp add: lessThan_Suc [of "Suc m"])
  also have "\<dots> = insert ((A + Suc m) div 256) {A div 256..(A + m) div 256}"
    by (simp only: Suc.IH)
  also have "\<dots> = {A div 256..(A + Suc m) div 256}"
    using step lo by (auto simp del: add_Suc_right)
  finally show ?case .
qed

lemma pages_touched:
  fixes A n :: nat
  shows "card ((\<lambda>i. (A + i) div 256) ` {..<n}) =
     (if n = 0 then 0 else (A + n - 1) div 256 - A div 256 + 1)"
proof (cases n)
  case 0
  then show ?thesis by simp
next
  case (Suc m)
  have "A div 256 \<le> (A + m) div 256"
    by (simp add: div_le_mono)
  then show ?thesis
    by (simp add: Suc page_image del: add_Suc_right)
qed

lemma min_cover:
  fixes pieces :: "(nat \<times> nat) list"
  assumes inside: "\<And>a c x. (a, c) \<in> set pieces \<Longrightarrow> a \<le> x \<Longrightarrow> x < a + c \<Longrightarrow> x div 256 = a div 256"
    and cover: "concat (map (\<lambda>(a, c). [a..<a + c]) pieces) = [A..<A + n]"
  shows "card ((\<lambda>i. (A + i) div 256) ` {..<n}) \<le> length pieces"
proof -
  have shift: "(\<lambda>i. A + i) ` {0..<n} = {A..<A + n}"
    using image_add_atLeastLessThan [of A 0 n] by (simp add: add.commute)
  have "(\<lambda>i. (A + i) div 256) ` {..<n} = (\<lambda>x. x div 256) ` ((\<lambda>i. A + i) ` {0..<n})"
    by (simp only: image_image lessThan_atLeast0)
  also have "\<dots> = (\<lambda>x. x div 256) ` set [A..<A + n]"
    by (simp only: shift set_upt)
  also have "\<dots> = (\<lambda>x. x div 256) ` set (concat (map (\<lambda>(a, c). [a..<a + c]) pieces))"
    by (simp only: cover)
  also have "\<dots> \<subseteq> (\<lambda>(a, c). a div 256) ` set pieces"
  proof
    fix p
    assume "p \<in> (\<lambda>x. x div 256) ` set (concat (map (\<lambda>(a, c). [a..<a + c]) pieces))"
    then obtain x where p: "p = x div 256"
      and x: "x \<in> set (concat (map (\<lambda>(a, c). [a..<a + c]) pieces))"
      by blast
    from x obtain a c where ac: "(a, c) \<in> set pieces" and "a \<le> x" "x < a + c"
      by auto
    with inside have "x div 256 = a div 256"
      by blast
    with p have "p = (\<lambda>(a, c). a div 256) (a, c)"
      by simp
    with ac show "p \<in> (\<lambda>(a, c). a div 256) ` set pieces"
      by (rule_tac image_eqI)
  qed
  finally have "card ((\<lambda>i. (A + i) div 256) ` {..<n}) \<le> card ((\<lambda>(a, c). a div 256) ` set pieces)"
    by (simp add: card_mono)
  also have "\<dots> \<le> card (set pieces)"
    by (simp add: card_image_le)
  also have "\<dots> \<le> length pieces"
    by (rule card_length)
  finally show ?thesis .
qed

text \<open>
  Claim C1. For every starting address and length, \<^verbatim>\<open>readDataSync\<close> and \<^verbatim>\<open>writeDataSync\<close>
  run their page operation over the same list of sub-operations \<open>pageChunks addr buf n\<close>,
  in order. The list is empty when the length is zero; otherwise its head is at the
  current address and buffer position with the count \<open>page_count addr n\<close>, which is the
  distance from the address to the next 256-byte boundary capped at the bytes remaining,
  and its tail is the list for the rest. Every sub-operation has a length between 1 and
  256 and ends at or before the next 256-byte boundary after its start. The
  sub-operations, one after the other, go through exactly the flash addresses
  \<open>addr, addr + 1, ...\<close> and the buffer addresses \<open>buf, buf + 1, ...\<close> of the \<open>n\<close> bytes. Their
  number is the index of the last page minus the index of the first plus one, which is
  the number of 256-byte pages the range touches, and it is minimal: a list of pieces that
  each stay inside one page and together make up the range is at least as long. Both loops are total functions of their arguments
  (\<^verbatim>\<open>writeDataSync\<close> is \<open>None\<close> only where a page write never returns).
\<close>

theorem data_sync_page_split:
  "readDataSync this addr buf n s = read_chunks this (pageChunks addr buf n) s
   \<and> writeDataSync this addr buf n s = write_chunks this (pageChunks addr buf n) s
   \<and> (n = 0 \<longrightarrow> pageChunks addr buf n = [])
   \<and> (0 < n \<longrightarrow>
        pageChunks addr buf n =
          (addr, buf, page_count addr n) #
          pageChunks (addr + page_count addr n) (buf + page_count addr n) (n - page_count addr n))
   \<and> unat (page_count addr n) = min (256 - unat addr mod 256) (unat n)
   \<and> (\<forall>(a, b, c) \<in> set (pageChunks addr buf n).
        0 < unat c \<and> unat c \<le> 256 \<and> unat a mod 256 + unat c \<le> 256)
   \<and> concat (map (\<lambda>(a, b, c). span a c) (pageChunks addr buf n)) = span addr n
   \<and> concat (map (\<lambda>(a, b, c). span b c) (pageChunks addr buf n)) = span buf n
   \<and> length (pageChunks addr buf n) =
       (if n = 0 then 0 else (unat addr + unat n - 1) div 256 - unat addr div 256 + 1)
   \<and> length (pageChunks addr buf n) = card ((\<lambda>i. (unat addr + i) div 256) ` {..<unat n})
   \<and> (\<forall>pieces.
        (\<forall>(a, c) \<in> set pieces. \<forall>x \<in> {a..<a + c}. x div 256 = a div 256) \<and>
        concat (map (\<lambda>(a, c). [a..<a + c]) pieces) = [unat addr..<unat addr + unat n] \<longrightarrow>
        length (pageChunks addr buf n) \<le> length pieces)"
proof -
  have len: "length (pageChunks addr buf n) =
      (if n = 0 then 0 else (unat addr + unat n - 1) div 256 - unat addr div 256 + 1)"
  proof (cases "n = 0")
    case True
    then show ?thesis by (simp add: pageChunks_0)
  next
    case False
    then have "0 < unat n"
      by (simp add: unat_gt_0)
    from pages_between [OF this, of "unat addr"] False show ?thesis
      by (simp add: pageChunks_length)
  qed
  have card: "length (pageChunks addr buf n) = card ((\<lambda>i. (unat addr + i) div 256) ` {..<unat n})"
    unfolding len pages_touched by (simp add: unat_eq_0)
  have bounds: "\<forall>(a, b, c) \<in> set (pageChunks addr buf n).
      0 < unat c \<and> unat c \<le> 256 \<and> unat a mod 256 + unat c \<le> 256"
    using pageChunks_bounds [of _ _ _ addr buf n] by blast
  have minimal: "\<forall>pieces.
      (\<forall>(a, c) \<in> set pieces. \<forall>x \<in> {a..<a + c}. x div 256 = a div 256) \<and>
      concat (map (\<lambda>(a, c). [a..<a + c]) pieces) = [unat addr..<unat addr + unat n] \<longrightarrow>
      length (pageChunks addr buf n) \<le> length pieces"
  proof (intro allI impI, elim conjE)
    fix pieces :: "(nat \<times> nat) list"
    assume inside: "\<forall>(a, c) \<in> set pieces. \<forall>x \<in> {a..<a + c}. x div 256 = a div 256"
      and cover: "concat (map (\<lambda>(a, c). [a..<a + c]) pieces) = [unat addr..<unat addr + unat n]"
    have "x div 256 = a div 256"
      if ac: "(a, c) \<in> set pieces" and lo: "a \<le> x" and hi: "x < a + c" for a c x
    proof -
      from bspec [OF inside ac] have "\<forall>x \<in> {a..<a + c}. x div 256 = a div 256"
        by (simp only: prod.case)
      moreover from lo hi have "x \<in> {a..<a + c}"
        by simp
      ultimately show ?thesis
        by (rule bspec)
    qed
    from min_cover [OF this cover] show "length (pageChunks addr buf n) \<le> length pieces"
      by (simp only: card)
  qed
  have empty: "n = 0 \<longrightarrow> pageChunks addr buf n = []"
    by (simp add: pageChunks_0)
  have step: "0 < n \<longrightarrow>
        pageChunks addr buf n =
          (addr, buf, page_count addr n) #
          pageChunks (addr + page_count addr n) (buf + page_count addr n) (n - page_count addr n)"
    by (rule impI) (rule pageChunks_step)
  note cover = pageChunks_cover [of addr buf n]
  show ?thesis
    apply (intro conjI)
             apply (rule readDataSync_chunks)
            apply (rule writeDataSync_chunks)
           apply (rule empty)
          apply (rule step)
         apply (rule unat_page_count)
        apply (rule bounds)
       apply (rule cover [THEN conjunct1])
      apply (rule cover [THEN conjunct2])
     apply (rule len)
    apply (rule card)
    apply (rule minimal)
    done
qed

text \<open>
  The theorem for ten bytes at address 250: six bytes up to the boundary at 256, then
  four.
\<close>

theorem data_sync_page_split_witness:
  "pageChunks 250 0x2000 10 = [(250, 0x2000, 6), (256, 0x2006, 4)]
   \<and> readDataSync 1 250 0x2000 10 (fresh_machine (\<lambda>k. 0)) =
       readPageSync 1 256 0x2006 4 (readPageSync 1 250 0x2000 6 (fresh_machine (\<lambda>k. 0)))
   \<and> length (pageChunks 250 0x2000 10) = 2"
proof -
  have c1: "page_count 250 10 = 6" and c2: "page_count 256 4 = 4"
    by (simp_all add: page_count_def PAGE_SIZE_def)
  note first = data_sync_page_split [of 1 250 "0x2000" 10 "fresh_machine (\<lambda>k. 0)"]
  note second = data_sync_page_split [of 1 256 "0x2006" 4 "fresh_machine (\<lambda>k. 0)"]
  note last = data_sync_page_split [of 1 260 "0x200A" 0 "fresh_machine (\<lambda>k. 0)"]
  have e3: "pageChunks 260 0x200A 0 = []"
    using last [THEN conjunct2, THEN conjunct2, THEN conjunct1] by simp
  have e2: "pageChunks 256 0x2006 4 =
      (256, 0x2006, page_count 256 4) #
      pageChunks (256 + page_count 256 4) (0x2006 + page_count 256 4) (4 - page_count 256 4)"
    using second [THEN conjunct2, THEN conjunct2, THEN conjunct2, THEN conjunct1] by simp
  have e1: "pageChunks 250 0x2000 10 =
      (250, 0x2000, page_count 250 10) #
      pageChunks (250 + page_count 250 10) (0x2000 + page_count 250 10) (10 - page_count 250 10)"
    using first [THEN conjunct2, THEN conjunct2, THEN conjunct2, THEN conjunct1] by simp
  have chunks: "pageChunks 250 0x2000 10 = [(250, 0x2000, 6), (256, 0x2006, 4)]"
    using e1 e2 e3 by (simp add: c1 c2)
  have "readDataSync 1 250 0x2000 10 (fresh_machine (\<lambda>k. 0)) =
      read_chunks 1 (pageChunks 250 0x2000 10) (fresh_machine (\<lambda>k. 0))"
    by (rule first [THEN conjunct1])
  with chunks show ?thesis
    by simp
qed

section \<open>The bus settings\<close>

lemma quiet_refl: "quiet s s"
  by (simp add: quiet_def)

lemma quiet_trans: "quiet s s1 \<Longrightarrow> quiet s1 s2 \<Longrightarrow> quiet s s2"
  by (auto simp: quiet_def)

lemma quiet_dedicated: "quiet s s' \<Longrightarrow> sharedBus (objs s' t) = sharedBus (objs s t)"
  by (simp add: quiet_def)

lemma quiet_settings:
  "quiet s s' \<Longrightarrow> filter is_setting (trace s') = filter is_setting (trace s)"
  by (auto simp: quiet_def)

lemma select_quiet: "\<not> sharedBus d \<Longrightarrow> filter is_setting (select_events d) = []"
  by (simp add: select_events_def is_setting_def)

lemma status_poll_quiet: "\<not> sharedBus d \<Longrightarrow> filter is_setting (status_poll d) = []"
  by (simp add: status_poll_def select_quiet is_setting_def)

lemma write_enable_quiet: "\<not> sharedBus d \<Longrightarrow> filter is_setting (write_enable_events d) = []"
  by (simp add: write_enable_events_def select_quiet is_setting_def)

lemma wait_events_quiet: "\<not> sharedBus d \<Longrightarrow> filter is_setting (wait_events k d) = []"
  by (induction k) (simp_all add: status_poll_quiet is_setting_def)

lemmas events_quiet = select_quiet status_poll_quiet write_enable_quiet wait_events_quiet

lemma quiet_readStatus: "\<not> sharedBus (objs s this) \<Longrightarrow> quiet s (snd (readStatus this s))"
  by (simp add: quiet_def readStatus_eq events_quiet)

lemma quiet_isWriteInProgress:
  "\<not> sharedBus (objs s this) \<Longrightarrow> quiet s (snd (isWriteInProgress this s))"
  by (simp add: quiet_def isWriteInProgress_eq events_quiet)

lemma quiet_jedecIdRead: "\<not> sharedBus (objs s this) \<Longrightarrow> quiet s (snd (jedecIdRead this s))"
  by (simp add: quiet_def jedecIdRead_eq events_quiet is_setting_def)

lemma quiet_isValidChip: "\<not> sharedBus (objs s this) \<Longrightarrow> quiet s (snd (isValidChip this s))"
  by (simp add: quiet_def isValidChip_def jedecIdRead_eq emit_def events_quiet is_setting_def)

lemma quiet_wait:
  "\<not> sharedBus (objs s this) \<Longrightarrow> waitForWriteComplete this s = Some s' \<Longrightarrow> quiet s s'"
  by (auto simp: quiet_def events_quiet dest!: wait_returns)

lemma quiet_writeEnable: "\<not> sharedBus (objs s this) \<Longrightarrow> quiet s (writeEnable this s)"
  by (simp add: quiet_def writeEnable_eq events_quiet)

lemma quiet_beginTransaction:
  "\<not> sharedBus (objs s this) \<Longrightarrow> quiet s (beginTransaction this s)"
  by (simp add: quiet_def beginTransaction_eq events_quiet)

lemma quiet_endTransaction: "quiet s (endTransaction this s)"
  by (simp add: quiet_def endTransaction_eq is_setting_def)

lemma quiet_transfer: "quiet s (snd (transfer bus tx rx n cb s))"
  by (simp add: quiet_def transfer_def is_setting_def)

lemma quiet_command:
  "\<not> sharedBus (objs s this) \<Longrightarrow>
   quiet s (endTransaction this (snd (transfer bus tx rx n cb (beginTransaction this s))))"
  by (simp add: quiet_def beginTransaction_eq endTransaction_eq transfer_def events_quiet
      is_setting_def)

lemma quiet_readPageSync:
  "\<not> sharedBus (objs s this) \<Longrightarrow> quiet s (readPageSync this addr buf n s)"
  by (simp add: quiet_def readPageSync_eq events_quiet is_setting_def)

lemma quiet_readPageAsync:
  "\<not> sharedBus (objs s this) \<Longrightarrow> quiet s (readPageAsync this addr buf n cb p s)"
  by (simp add: quiet_def readPageAsync_eq events_quiet is_setting_def)

lemma quiet_writePageCommon:
  "\<not> sharedBus (objs s this) \<Longrightarrow> quiet s (writePageCommon this addr buf n cb s)"
  by (simp add: quiet_def writePageCommon_eq events_quiet is_setting_def)

lemma quiet_writeStatus:
  assumes d: "\<not> sharedBus (objs s this)" and r: "writeStatus this v s = Some s'"
  shows "quiet s s'"
proof -
  from r obtain s1 where w: "waitForWriteComplete this s = Some s1"
    and s': "s' = endTransaction this (snd (transfer SPI
        (Some ((replicate 2 None)[0 := Some 0x01, 1 := Some v])) False 2 NoCallback
        (beginTransaction this s1)))"
    by (cases "waitForWriteComplete this s") (simp_all add: writeStatus_def Let_def split_def)
  from quiet_wait [OF d w] have q1: "quiet s s1" .
  with d have "\<not> sharedBus (objs s1 this)"
    by (simp add: quiet_dedicated)
  from quiet_command [OF this] s' have "quiet s1 s'"
    by simp
  with q1 show ?thesis
    by (rule quiet_trans)
qed

lemma quiet_writePageSync:
  assumes d: "\<not> sharedBus (objs s this)" and r: "writePageSync this addr buf n s = Some s'"
  shows "quiet s s'"
proof -
  from r obtain s1 where w: "waitForWriteComplete this s = Some s1"
    and w2: "waitForWriteComplete this
        (endTransaction this (writePageCommon this addr buf n NoCallback s1)) = Some s'"
    by (cases "waitForWriteComplete this s") (simp_all add: writePageSync_def Let_def)
  let ?s3 = "endTransaction this (writePageCommon this addr buf n NoCallback s1)"
  from quiet_wait [OF d w] have q1: "quiet s s1" .
  with d have d1: "\<not> sharedBus (objs s1 this)"
    by (simp add: quiet_dedicated)
  have q3: "quiet s1 ?s3"
    by (rule quiet_trans [OF quiet_writePageCommon [OF d1] quiet_endTransaction])
  with d1 have "\<not> sharedBus (objs ?s3 this)"
    by (simp add: quiet_dedicated)
  from quiet_wait [OF this w2] have "quiet ?s3 s'" .
  with q1 q3 show ?thesis
    by (blast intro: quiet_trans)
qed

lemma quiet_writePageAsync:
  assumes d: "\<not> sharedBus (objs s this)" and r: "writePageAsync this addr buf n cb p s = Some s'"
  shows "quiet s s'"
proof -
  from r obtain k where "s' = s\<lparr>trace := trace s @
                 wait_events k (objs s this) @
                 write_enable_events (objs s this) @
                 select_events (objs s this) @
                 [Transfer SPI (Some (header 0x02 addr)) False 4 NoCallback,
                  Transfer SPI (Some (map Some (load_bytes buf (unat n) (mem s))))
                    False (unat n) Completion],
              clock := clock s + 2 * Suc k + 5 + unat n,
              g_spiFlash := this, g_callback := cb, g_callbackParam := p,
              recorded_at := length (trace s @ wait_events k (objs s this))\<rparr>"
    unfolding writePageAsync_iff by blast
  with d show ?thesis
    by (simp add: quiet_def events_quiet is_setting_def)
qed

lemma quiet_erase:
  assumes d: "\<not> sharedBus (objs s this)"
    and w: "waitForWriteComplete this s = Some s1"
    and w2: "waitForWriteComplete this
        (endTransaction this (snd (transfer bus tx rx n cb
           (beginTransaction this (writeEnable this s1))))) = Some s'"
  shows "quiet s s'"
proof -
  let ?s2 = "writeEnable this s1"
  let ?s5 = "endTransaction this (snd (transfer bus tx rx n cb (beginTransaction this ?s2)))"
  from quiet_wait [OF d w] have q1: "quiet s s1" .
  with d have d1: "\<not> sharedBus (objs s1 this)"
    by (simp add: quiet_dedicated)
  from quiet_writeEnable [OF d1] have q2: "quiet s1 ?s2" .
  with d1 have d2: "\<not> sharedBus (objs ?s2 this)"
    by (simp add: quiet_dedicated)
  from quiet_command [OF d2] have q5: "quiet ?s2 ?s5" .
  with d2 have "\<not> sharedBus (objs ?s5 this)"
    by (simp add: quiet_dedicated)
  from quiet_wait [OF this w2] have "quiet ?s5 s'" .
  with q1 q2 q5 show ?thesis
    by (blast intro: quiet_trans)
qed

lemma quiet_sectorErase:
  assumes d: "\<not> sharedBus (objs s this)" and r: "sectorErase this addr s = Some s'"
  shows "quiet s s'"
proof (cases "waitForWriteComplete this s")
  case None
  with r show ?thesis by (simp add: sectorErase_def)
next
  case (Some s1)
  with r show ?thesis
    by (intro quiet_erase [OF d Some]) (simp add: sectorErase_def Let_def split_def)
qed

lemma quiet_blockErase:
  assumes d: "\<not> sharedBus (objs s this)" and r: "blockErase this addr s = Some s'"
  shows "quiet s s'"
proof (cases "waitForWriteComplete this s")
  case None
  with r show ?thesis by (simp add: blockErase_def)
next
  case (Some s1)
  with r show ?thesis
    by (intro quiet_erase [OF d Some]) (simp add: blockErase_def Let_def split_def)
qed

lemma quiet_chipErase:
  assumes d: "\<not> sharedBus (objs s this)" and r: "chipErase this s = Some s'"
  shows "quiet s s'"
proof (cases "waitForWriteComplete this s")
  case None
  with r show ?thesis by (simp add: chipErase_def)
next
  case (Some s1)
  with r show ?thesis
    by (intro quiet_erase [OF d Some]) (simp add: chipErase_def Let_def split_def)
qed

lemma quiet_read_chunks:
  "\<not> sharedBus (objs s this) \<Longrightarrow> quiet s (read_chunks this chunks s)"
proof (induction chunks arbitrary: s)
  case Nil
  show ?case by (simp add: quiet_refl)
next
  case (Cons x chunks)
  obtain a b c where x: "x = (a, b, c)"
    by (cases x)
  from quiet_readPageSync [OF Cons.prems] have q: "quiet s (readPageSync this a b c s)" .
  with Cons.prems have "\<not> sharedBus (objs (readPageSync this a b c s) this)"
    by (simp add: quiet_dedicated)
  from Cons.IH [OF this] q show ?case
    by (simp add: x) (blast intro: quiet_trans)
qed

lemma quiet_write_chunks:
  "\<not> sharedBus (objs s this) \<Longrightarrow> write_chunks this chunks s = Some s' \<Longrightarrow> quiet s s'"
proof (induction chunks arbitrary: s)
  case Nil
  then show ?case by (simp add: quiet_refl)
next
  case (Cons x chunks)
  obtain a b c where x: "x = (a, b, c)"
    by (cases x)
  from Cons.prems(2) obtain s1 where w: "writePageSync this a b c s = Some s1"
    and rest: "write_chunks this chunks s1 = Some s'"
    by (cases "writePageSync this a b c s") (simp_all add: x)
  from quiet_writePageSync [OF Cons.prems(1) w] have q: "quiet s s1" .
  with Cons.prems(1) have "\<not> sharedBus (objs s1 this)"
    by (simp add: quiet_dedicated)
  from Cons.IH [OF this rest] q show ?case
    by (blast intro: quiet_trans)
qed

lemma quiet_completion:
  assumes ded: "\<forall>t. \<not> sharedBus (objs s t)"
    and uq: "\<forall>cb p u u'. (\<forall>t. \<not> sharedBus (objs u t)) \<and> user cb p u = Some u' \<longrightarrow> quiet u u'"
    and ret: "SpiFlash_completion user s = Some (Inr s')"
  shows "quiet s s'"
proof -
  from ret have pending: "g_spiFlash s \<noteq> NULL"
    by (auto simp: SpiFlash_completion_def)
  show ?thesis
  proof (cases "g_callback s = NULL")
    case True
    from ret show ?thesis
      unfolding completion_no_callback [OF pending True]
      by (auto simp: quiet_def is_setting_def)
  next
    case False
    let ?x = "s\<lparr>trace := trace s @
                 [DigitalWrite (cs (objs s (g_spiFlash s))) HIGH,
                  UserCallback (g_callback s) (g_callbackParam s)],
               g_spiFlash := NULL\<rparr>"
    from ret obtain s3 where u: "user (g_callback s) (g_callbackParam s) ?x = Some s3"
      and s': "s' = s3\<lparr>g_callback := NULL, g_callbackParam := NULL\<rparr>"
      unfolding completion_callback [OF pending False] by auto
    have q1: "quiet s ?x"
      by (simp add: quiet_def is_setting_def)
    from ded have "\<forall>t. \<not> sharedBus (objs ?x t)"
      by simp
    with uq u have q2: "quiet ?x s3"
      by blast
    have "quiet s3 s'"
      by (simp add: s' quiet_def)
    with q1 q2 show ?thesis
      by (blast intro: quiet_trans)
  qed
qed

lemma SpiFlash_begin_eq:
  "\<not> sharedBus (objs s this) \<Longrightarrow>
   SpiFlash_begin this s =
     s\<lparr>trace := trace s @
          [SpiBegin (spi (objs s this)) (cs (objs s this)),
           SetBitOrder (spi (objs s this)) MSBFIRST,
           SetClockSpeed (spi (objs s this)) 30 MHZ,
           SetDataMode (spi (objs s this)) SPI_MODE0]\<rparr>"
  by (simp add: SpiFlash_begin_def setSpiSettings_eq emit_def settings_events_def Let_def)

lemma exec_step:
  assumes ded: "\<forall>t. \<not> sharedBus (objs s t)"
    and uq: "\<forall>cb p u u'. (\<forall>t. \<not> sharedBus (objs u t)) \<and> user cb p u = Some u' \<longrightarrow> quiet u u'"
    and ex: "exec user c s = Some (Inr s')"
  shows "(\<forall>t. \<not> sharedBus (objs s' t)) \<and>
     length (filter is_setting (trace s')) =
       length (filter is_setting (trace s)) + (if is_begin c then 3 else 0)"
proof -
  from ded have d: "\<not> sharedBus (objs s t)" for t
    by simp
  have from_quiet: ?thesis if "quiet s s'" "\<not> is_begin c"
    using that ded by (simp add: quiet_dedicated quiet_settings)
  show ?thesis
  proof (cases c)
    case (New t b p)
    with ex ded show ?thesis
      by (auto simp: SpiFlash_ctor_def split: if_splits)
  next
    case (Begin t)
    with ex have "s' = SpiFlash_begin t s"
      by simp
    with ded Begin show ?thesis
      by (simp add: SpiFlash_begin_eq is_setting_def)
  next
    case (IsValidChip t)
    with ex quiet_isValidChip [OF d, of t] show ?thesis
      by (intro from_quiet) auto
  next
    case (JedecIdRead t)
    with ex quiet_jedecIdRead [OF d, of t] show ?thesis
      by (intro from_quiet) auto
  next
    case (ReadStatus t)
    with ex quiet_readStatus [OF d, of t] show ?thesis
      by (intro from_quiet) auto
  next
    case (IsWriteInProgress t)
    with ex quiet_isWriteInProgress [OF d, of t] show ?thesis
      by (intro from_quiet) auto
  next
    case (WaitForWriteComplete t)
    with ex quiet_wait [OF d, of t s'] show ?thesis
      by (intro from_quiet) auto
  next
    case (WriteStatus t v)
    with ex quiet_writeStatus [OF d, of t v s'] show ?thesis
      by (intro from_quiet) auto
  next
    case (ReadDataSync t a b n)
    with ex quiet_read_chunks [OF d, of t "pageChunks a b n"] show ?thesis
      by (intro from_quiet) (auto simp: readDataSync_chunks)
  next
    case (ReadPageSync t a b n)
    with ex quiet_readPageSync [OF d, of t a b n] show ?thesis
      by (intro from_quiet) auto
  next
    case (ReadPageAsync t a b n cb p)
    with ex quiet_readPageAsync [OF d, of t a b n cb p] show ?thesis
      by (intro from_quiet) auto
  next
    case (WriteDataSync t a b n)
    with ex quiet_write_chunks [OF d, of t "pageChunks a b n" s'] show ?thesis
      by (intro from_quiet) (auto simp: writeDataSync_chunks)
  next
    case (WritePageSync t a b n)
    with ex quiet_writePageSync [OF d, of t a b n s'] show ?thesis
      by (intro from_quiet) auto
  next
    case (WritePageAsync t a b n cb p)
    with ex quiet_writePageAsync [OF d, of t a b n cb p s'] show ?thesis
      by (intro from_quiet) auto
  next
    case (SectorErase t a)
    with ex quiet_sectorErase [OF d, of t a s'] show ?thesis
      by (intro from_quiet) auto
  next
    case (BlockErase t a)
    with ex quiet_blockErase [OF d, of t a s'] show ?thesis
      by (intro from_quiet) auto
  next
    case (ChipErase t)
    with ex quiet_chipErase [OF d, of t s'] show ?thesis
      by (intro from_quiet) auto
  next
    case DmaComplete
    with ex quiet_completion [OF ded uq, of s'] show ?thesis
      by (intro from_quiet) auto
  qed
qed

lemma run_invariant:
  assumes "\<forall>t. \<not> sharedBus (objs s t)"
    and uq: "\<forall>cb p u u'. (\<forall>t. \<not> sharedBus (objs u t)) \<and> user cb p u = Some u' \<longrightarrow> quiet u u'"
    and "run user calls s = Some (Inr s')"
  shows "(\<forall>t. \<not> sharedBus (objs s' t)) \<and>
     length (filter is_setting (trace s')) =
       length (filter is_setting (trace s)) + 3 * length (filter is_begin calls)"
  using assms(1,3)
proof (induction calls arbitrary: s)
  case Nil
  then show ?case by simp
next
  case (Cons c calls)
  from Cons.prems(2) obtain s1 where ex: "exec user c s = Some (Inr s1)"
    and rest: "run user calls s1 = Some (Inr s')"
    by (auto split: option.splits sum.splits)
  from exec_step [OF Cons.prems(1) uq ex] Cons.IH [OF _ rest] show ?case
    by simp
qed

text \<open>
  Claim C9. The constructor sets \<^verbatim>\<open>sharedBus\<close> to false, and no call of the interface (nor
  the completion handler) writes to a device object. So, starting where every device
  object has the flag as its constructor left it, after any run of calls that returns:
  the flag is false for every object; \<^verbatim>\<open>beginTransaction\<close> does nothing but drive the chip
  select low (it applies no setting and does not delay); \<^verbatim>\<open>begin()\<close> applies the bit order,
  the clock speed and the data mode once each; and the settings events in the trace are
  those of the calls of \<^verbatim>\<open>begin()\<close>, three for each call and none from any other call.

  The user's callbacks, which the completion handler runs, are outside the driver: the
  theorem takes them to leave the device objects alone (the flag is a private member) and
  to apply no bus settings themselves. Callbacks that do nothing are of that kind, and so
  are callbacks that issue the next read or write.
\<close>

theorem sharedBus_stays_false:
  assumes ded: "\<forall>t. \<not> sharedBus (objs s t)"
    and user: "\<forall>cb p u u'. (\<forall>t. \<not> sharedBus (objs u t)) \<and> user cb p u = Some u' \<longrightarrow> quiet u u'"
    and ret: "run user calls s = Some (Inr s')"
  shows "\<not> sharedBus (objs (SpiFlash_ctor this b p s0) this)
       \<and> (\<forall>t. \<not> sharedBus (objs s' t))
       \<and> (\<forall>t. beginTransaction t s' =
              s'\<lparr>trace := trace s' @ [DigitalWrite (cs (objs s' t)) LOW]\<rparr>)
       \<and> (\<forall>t. SpiFlash_begin t s' =
              s'\<lparr>trace := trace s' @
                    [SpiBegin (spi (objs s' t)) (cs (objs s' t)),
                     SetBitOrder (spi (objs s' t)) MSBFIRST,
                     SetClockSpeed (spi (objs s' t)) 30 MHZ,
                     SetDataMode (spi (objs s' t)) SPI_MODE0]\<rparr>)
       \<and> length (filter is_setting (trace s')) =
           length (filter is_setting (trace s)) + 3 * length (filter is_begin calls)"
proof -
  note inv = run_invariant [OF ded user ret]
  from inv have ded': "\<not> sharedBus (objs s' t)" for t
    by blast
  have ctor: "\<not> sharedBus (objs (SpiFlash_ctor this b p s0) this)"
    by (simp add: SpiFlash_ctor_def)
  have sel: "\<forall>t. beginTransaction t s' =
      s'\<lparr>trace := trace s' @ [DigitalWrite (cs (objs s' t)) LOW]\<rparr>"
    by (simp add: beginTransaction_eq select_events_def ded')
  have beg: "\<forall>t. SpiFlash_begin t s' =
      s'\<lparr>trace := trace s' @
            [SpiBegin (spi (objs s' t)) (cs (objs s' t)),
             SetBitOrder (spi (objs s' t)) MSBFIRST,
             SetClockSpeed (spi (objs s' t)) 30 MHZ,
             SetDataMode (spi (objs s' t)) SPI_MODE0]\<rparr>"
    by (simp add: SpiFlash_begin_eq ded')
  show ?thesis
    apply (intro conjI)
        apply (rule ctor)
       apply (rule inv [THEN conjunct1])
      apply (rule sel)
     apply (rule beg)
    apply (rule inv [THEN conjunct2])
    done
qed

text \<open>
  The theorem on a run that constructs a device, begins, identifies the chip, issues an
  asynchronous read, completes it with a callback that issues a second read, completes
  that one and reads the status.
\<close>

theorem sharedBus_stays_false_witness:
  "\<exists>s'. run (\<lambda>cb p s. Some (readPageAsync 1 0x40 0x3000 2 NULL NULL s))
          [New 1 SPI 5, Begin 1, IsValidChip 1, ReadPageAsync 1 0x10 0x2000 2 0x100 0x200,
           DmaComplete, DmaComplete, ReadStatus 1]
          (fresh_machine (\<lambda>k. 0)) = Some (Inr s')
      \<and> (\<forall>t. \<not> sharedBus (objs s' t))
      \<and> length (filter is_setting (trace s')) = 3"
proof -
  let ?user = "\<lambda>(cb :: ptr) (p :: ptr) s. Some (readPageAsync 1 0x40 0x3000 2 NULL NULL s)"
  let ?calls = "[New 1 SPI 5, Begin 1, IsValidChip 1, ReadPageAsync 1 0x10 0x2000 2 0x100 0x200,
           DmaComplete, DmaComplete, ReadStatus 1]"
  let ?s = "fresh_machine (\<lambda>k. 0)"
  have ded: "\<forall>t. \<not> sharedBus (objs ?s t)"
    by (simp add: fresh_machine_simps)
  have user: "\<forall>cb p u u'. (\<forall>t. \<not> sharedBus (objs u t)) \<and> ?user cb p u = Some u' \<longrightarrow> quiet u u'"
    using quiet_readPageAsync by auto
  have "\<exists>s'. run ?user ?calls ?s = Some (Inr s')"
    by (simp add: SpiFlash_ctor_def SpiFlash_begin_eq isValidChip_def jedecIdRead_eq
        readPageAsync_eq SpiFlash_completion_def endTransaction_eq emit_def readStatus_eq
        fresh_machine_simps Let_def)
  then obtain s' where ret: "run ?user ?calls ?s = Some (Inr s')"
    by blast
  note w = sharedBus_stays_false [OF ded user ret, of 1 SPI 5 ?s]
  from w have "\<forall>t. \<not> sharedBus (objs s' t)"
    by blast
  moreover from w have "length (filter is_setting (trace s')) =
      length (filter is_setting (trace ?s)) + 3 * length (filter is_begin ?calls)"
    by blast
  then have "length (filter is_setting (trace s')) = 3"
    by (simp add: fresh_machine_simps)
  ultimately show ?thesis
    using ret by blast
qed

end
